theory Spec2Isabelle
  imports Main
begin

section \<open>Python strings\<close>

text \<open>
  A Python \<^verbatim>\<open>str\<close> that is searched, split or lower-cased (the query, the keywords, the
  titles and descriptions of a candidate) is the list of its code points, as integers; \<open>str\<close> writes
  such a string from a literal. URLs, ids and attributions, which the code only compares
  and passes on, are \<open>string\<close>s.
\<close>

type_synonym pystr = "int list"

definition str :: "string \<Rightarrow> pystr" where
  "str s = map of_char s"

subsection \<open>str.lower\<close>

text \<open>
  \<^verbatim>\<open>str.lower()\<close> as CPython 3.11 computes it (Unicode 14.0). A rule
  \<open>(lo, hi, step, delta)\<close> maps every \<open>step\<close>-th code point from \<open>lo\<close> to \<open>hi\<close> to the
  code point \<open>delta\<close> further on; U+0130 becomes the two code points U+0069 U+0307; every
  other code point is its own lower case.
\<close>

definition lower_rules :: "(int \<times> int \<times> int \<times> int) list" where
  "lower_rules =
     [(65, 90, 1, 32), (192, 214, 1, 32), (216, 222, 1, 32), (256, 302, 2, 1),
      (306, 310, 2, 1), (313, 327, 2, 1), (330, 374, 2, 1), (376, 376, 1, - 121),
      (377, 381, 2, 1), (385, 385, 1, 210), (386, 388, 2, 1), (390, 390, 1, 206),
      (391, 391, 1, 1), (393, 394, 1, 205), (395, 395, 1, 1), (398, 398, 1, 79),
      (399, 399, 1, 202), (400, 400, 1, 203), (401, 401, 1, 1), (403, 403, 1, 205),
      (404, 404, 1, 207), (406, 406, 1, 211), (407, 407, 1, 209), (408, 408, 1, 1),
      (412, 412, 1, 211), (413, 413, 1, 213), (415, 415, 1, 214), (416, 420, 2, 1),
      (422, 422, 1, 218), (423, 423, 1, 1), (425, 425, 1, 218), (428, 428, 1, 1),
      (430, 430, 1, 218), (431, 431, 1, 1), (433, 434, 1, 217), (435, 437, 2, 1),
      (439, 439, 1, 219), (440, 440, 1, 1), (444, 444, 1, 1), (452, 452, 1, 2),
      (453, 453, 1, 1), (455, 455, 1, 2), (456, 456, 1, 1), (458, 458, 1, 2),
      (459, 475, 2, 1), (478, 494, 2, 1), (497, 497, 1, 2), (498, 500, 2, 1),
      (502, 502, 1, - 97), (503, 503, 1, - 56), (504, 542, 2, 1), (544, 544, 1, - 130),
      (546, 562, 2, 1), (570, 570, 1, 10795), (571, 571, 1, 1), (573, 573, 1, - 163),
      (574, 574, 1, 10792), (577, 577, 1, 1), (579, 579, 1, - 195), (580, 580, 1, 69),
      (581, 581, 1, 71), (582, 590, 2, 1), (880, 882, 2, 1), (886, 886, 1, 1),
      (895, 895, 1, 116), (902, 902, 1, 38), (904, 906, 1, 37), (908, 908, 1, 64),
      (910, 911, 1, 63), (913, 929, 1, 32), (931, 939, 1, 32), (975, 975, 1, 8),
      (984, 1006, 2, 1), (1012, 1012, 1, - 60), (1015, 1015, 1, 1), (1017, 1017, 1, - 7),
      (1018, 1018, 1, 1), (1021, 1023, 1, - 130), (1024, 1039, 1, 80), (1040, 1071, 1, 32),
      (1120, 1152, 2, 1), (1162, 1214, 2, 1), (1216, 1216, 1, 15), (1217, 1229, 2, 1),
      (1232, 1326, 2, 1), (1329, 1366, 1, 48), (4256, 4293, 1, 7264), (4295, 4295, 1, 7264),
      (4301, 4301, 1, 7264), (5024, 5103, 1, 38864), (5104, 5109, 1, 8), (7312, 7354, 1, - 3008),
      (7357, 7359, 1, - 3008), (7680, 7828, 2, 1), (7838, 7838, 1, - 7615), (7840, 7934, 2, 1),
      (7944, 7951, 1, - 8), (7960, 7965, 1, - 8), (7976, 7983, 1, - 8), (7992, 7999, 1, - 8),
      (8008, 8013, 1, - 8), (8025, 8031, 2, - 8), (8040, 8047, 1, - 8), (8072, 8079, 1, - 8),
      (8088, 8095, 1, - 8), (8104, 8111, 1, - 8), (8120, 8121, 1, - 8), (8122, 8123, 1, - 74),
      (8124, 8124, 1, - 9), (8136, 8139, 1, - 86), (8140, 8140, 1, - 9), (8152, 8153, 1, - 8),
      (8154, 8155, 1, - 100), (8168, 8169, 1, - 8), (8170, 8171, 1, - 112), (8172, 8172, 1, - 7),
      (8184, 8185, 1, - 128), (8186, 8187, 1, - 126), (8188, 8188, 1, - 9), (8486, 8486, 1, - 7517),
      (8490, 8490, 1, - 8383), (8491, 8491, 1, - 8262), (8498, 8498, 1, 28), (8544, 8559, 1, 16),
      (8579, 8579, 1, 1), (9398, 9423, 1, 26), (11264, 11311, 1, 48), (11360, 11360, 1, 1),
      (11362, 11362, 1, - 10743), (11363, 11363, 1, - 3814), (11364, 11364, 1, - 10727), (11367, 11371, 2, 1),
      (11373, 11373, 1, - 10780), (11374, 11374, 1, - 10749), (11375, 11375, 1, - 10783), (11376, 11376, 1, - 10782),
      (11378, 11378, 1, 1), (11381, 11381, 1, 1), (11390, 11391, 1, - 10815), (11392, 11490, 2, 1),
      (11499, 11501, 2, 1), (11506, 11506, 1, 1), (42560, 42604, 2, 1), (42624, 42650, 2, 1),
      (42786, 42798, 2, 1), (42802, 42862, 2, 1), (42873, 42875, 2, 1), (42877, 42877, 1, - 35332),
      (42878, 42886, 2, 1), (42891, 42891, 1, 1), (42893, 42893, 1, - 42280), (42896, 42898, 2, 1),
      (42902, 42920, 2, 1), (42922, 42922, 1, - 42308), (42923, 42923, 1, - 42319), (42924, 42924, 1, - 42315),
      (42925, 42925, 1, - 42305), (42926, 42926, 1, - 42308), (42928, 42928, 1, - 42258), (42929, 42929, 1, - 42282),
      (42930, 42930, 1, - 42261), (42931, 42931, 1, 928), (42932, 42946, 2, 1), (42948, 42948, 1, - 48),
      (42949, 42949, 1, - 42307), (42950, 42950, 1, - 35384), (42951, 42953, 2, 1), (42960, 42960, 1, 1),
      (42966, 42968, 2, 1), (42997, 42997, 1, 1), (65313, 65338, 1, 32), (66560, 66599, 1, 40),
      (66736, 66771, 1, 40), (66928, 66938, 1, 39), (66940, 66954, 1, 39), (66956, 66962, 1, 39),
      (66964, 66965, 1, 39), (68736, 68786, 1, 64), (71840, 71871, 1, 32), (93760, 93791, 1, 32),
      (125184, 125217, 1, 34)]"

fun apply_rules :: "(int \<times> int \<times> int \<times> int) list \<Rightarrow> int \<Rightarrow> int" where
  "apply_rules [] c = c"
| "apply_rules ((lo, hi, step, delta) # rules) c =
     (if lo \<le> c \<and> c \<le> hi \<and> (c - lo) mod step = 0 then c + delta
      else apply_rules rules c)"

definition lower_code :: "int \<Rightarrow> pystr" where
  "lower_code c =
     (if c < 192 then (if 65 \<le> c \<and> c \<le> 90 then [c + 32] else [c])
      else if c = 304 then [105, 775]
      else [apply_rules lower_rules c])"

text \<open>
  The one letter whose lower case depends on its place is the capital sigma U+03A3: it
  becomes the final sigma U+03C2 when a cased letter stands before it and none after it,
  case-ignorable code points skipped on both sides, and U+03C3 otherwise. The two tables
  are the ranges of the case-ignorable code points and of the cased code points that are
  not case-ignorable.
\<close>

definition case_ignorable_ranges :: "(int \<times> int) list" where
  "case_ignorable_ranges =
     [(39, 39), (46, 46), (58, 58), (94, 94), (96, 96), (168, 168),
      (173, 173), (175, 175), (180, 180), (183, 184), (688, 879), (884, 885),
      (890, 890), (900, 901), (903, 903), (1155, 1161), (1369, 1369), (1375, 1375),
      (1425, 1469), (1471, 1471), (1473, 1474), (1476, 1477), (1479, 1479), (1524, 1524),
      (1536, 1541), (1552, 1562), (1564, 1564), (1600, 1600), (1611, 1631), (1648, 1648),
      (1750, 1757), (1759, 1768), (1770, 1773), (1807, 1807), (1809, 1809), (1840, 1866),
      (1958, 1968), (2027, 2037), (2042, 2042), (2045, 2045), (2070, 2093), (2137, 2139),
      (2184, 2184), (2192, 2193), (2200, 2207), (2249, 2306), (2362, 2362), (2364, 2364),
      (2369, 2376), (2381, 2381), (2385, 2391), (2402, 2403), (2417, 2417), (2433, 2433),
      (2492, 2492), (2497, 2500), (2509, 2509), (2530, 2531), (2558, 2558), (2561, 2562),
      (2620, 2620), (2625, 2626), (2631, 2632), (2635, 2637), (2641, 2641), (2672, 2673),
      (2677, 2677), (2689, 2690), (2748, 2748), (2753, 2757), (2759, 2760), (2765, 2765),
      (2786, 2787), (2810, 2815), (2817, 2817), (2876, 2876), (2879, 2879), (2881, 2884),
      (2893, 2893), (2901, 2902), (2914, 2915), (2946, 2946), (3008, 3008), (3021, 3021),
      (3072, 3072), (3076, 3076), (3132, 3132), (3134, 3136), (3142, 3144), (3146, 3149),
      (3157, 3158), (3170, 3171), (3201, 3201), (3260, 3260), (3263, 3263), (3270, 3270),
      (3276, 3277), (3298, 3299), (3328, 3329), (3387, 3388), (3393, 3396), (3405, 3405),
      (3426, 3427), (3457, 3457), (3530, 3530), (3538, 3540), (3542, 3542), (3633, 3633),
      (3636, 3642), (3654, 3662), (3761, 3761), (3764, 3772), (3782, 3782), (3784, 3789),
      (3864, 3865), (3893, 3893), (3895, 3895), (3897, 3897), (3953, 3966), (3968, 3972),
      (3974, 3975), (3981, 3991), (3993, 4028), (4038, 4038), (4141, 4144), (4146, 4151),
      (4153, 4154), (4157, 4158), (4184, 4185), (4190, 4192), (4209, 4212), (4226, 4226),
      (4229, 4230), (4237, 4237), (4253, 4253), (4348, 4348), (4957, 4959), (5906, 5908),
      (5938, 5939), (5970, 5971), (6002, 6003), (6068, 6069), (6071, 6077), (6086, 6086),
      (6089, 6099), (6103, 6103), (6109, 6109), (6155, 6159), (6211, 6211), (6277, 6278),
      (6313, 6313), (6432, 6434), (6439, 6440), (6450, 6450), (6457, 6459), (6679, 6680),
      (6683, 6683), (6742, 6742), (6744, 6750), (6752, 6752), (6754, 6754), (6757, 6764),
      (6771, 6780), (6783, 6783), (6823, 6823), (6832, 6862), (6912, 6915), (6964, 6964),
      (6966, 6970), (6972, 6972), (6978, 6978), (7019, 7027), (7040, 7041), (7074, 7077),
      (7080, 7081), (7083, 7085), (7142, 7142), (7144, 7145), (7149, 7149), (7151, 7153),
      (7212, 7219), (7222, 7223), (7288, 7293), (7376, 7378), (7380, 7392), (7394, 7400),
      (7405, 7405), (7412, 7412), (7416, 7417), (7468, 7530), (7544, 7544), (7579, 7679),
      (8125, 8125), (8127, 8129), (8141, 8143), (8157, 8159), (8173, 8175), (8189, 8190),
      (8203, 8207), (8216, 8217), (8228, 8228), (8231, 8231), (8234, 8238), (8288, 8292),
      (8294, 8303), (8305, 8305), (8319, 8319), (8336, 8348), (8400, 8432), (11388, 11389),
      (11503, 11505), (11631, 11631), (11647, 11647), (11744, 11775), (11823, 11823), (12293, 12293),
      (12330, 12333), (12337, 12341), (12347, 12347), (12441, 12446), (12540, 12542), (40981, 40981),
      (42232, 42237), (42508, 42508), (42607, 42610), (42612, 42621), (42623, 42623), (42652, 42655),
      (42736, 42737), (42752, 42785), (42864, 42864), (42888, 42890), (42994, 42996), (43000, 43001),
      (43010, 43010), (43014, 43014), (43019, 43019), (43045, 43046), (43052, 43052), (43204, 43205),
      (43232, 43249), (43263, 43263), (43302, 43309), (43335, 43345), (43392, 43394), (43443, 43443),
      (43446, 43449), (43452, 43453), (43471, 43471), (43493, 43494), (43561, 43566), (43569, 43570),
      (43573, 43574), (43587, 43587), (43596, 43596), (43632, 43632), (43644, 43644), (43696, 43696),
      (43698, 43700), (43703, 43704), (43710, 43711), (43713, 43713), (43741, 43741), (43756, 43757),
      (43763, 43764), (43766, 43766), (43867, 43871), (43881, 43883), (44005, 44005), (44008, 44008),
      (44013, 44013), (64286, 64286), (64434, 64450), (65024, 65039), (65043, 65043), (65056, 65071),
      (65106, 65106), (65109, 65109), (65279, 65279), (65287, 65287), (65294, 65294), (65306, 65306),
      (65342, 65342), (65344, 65344), (65392, 65392), (65438, 65439), (65507, 65507), (65529, 65531),
      (66045, 66045), (66272, 66272), (66422, 66426), (67456, 67461), (67463, 67504), (67506, 67514),
      (68097, 68099), (68101, 68102), (68108, 68111), (68152, 68154), (68159, 68159), (68325, 68326),
      (68900, 68903), (69291, 69292), (69446, 69456), (69506, 69509), (69633, 69633), (69688, 69702),
      (69744, 69744), (69747, 69748), (69759, 69761), (69811, 69814), (69817, 69818), (69821, 69821),
      (69826, 69826), (69837, 69837), (69888, 69890), (69927, 69931), (69933, 69940), (70003, 70003),
      (70016, 70017), (70070, 70078), (70089, 70092), (70095, 70095), (70191, 70193), (70196, 70196),
      (70198, 70199), (70206, 70206), (70367, 70367), (70371, 70378), (70400, 70401), (70459, 70460),
      (70464, 70464), (70502, 70508), (70512, 70516), (70712, 70719), (70722, 70724), (70726, 70726),
      (70750, 70750), (70835, 70840), (70842, 70842), (70847, 70848), (70850, 70851), (71090, 71093),
      (71100, 71101), (71103, 71104), (71132, 71133), (71219, 71226), (71229, 71229), (71231, 71232),
      (71339, 71339), (71341, 71341), (71344, 71349), (71351, 71351), (71453, 71455), (71458, 71461),
      (71463, 71467), (71727, 71735), (71737, 71738), (71995, 71996), (71998, 71998), (72003, 72003),
      (72148, 72151), (72154, 72155), (72160, 72160), (72193, 72202), (72243, 72248), (72251, 72254),
      (72263, 72263), (72273, 72278), (72281, 72283), (72330, 72342), (72344, 72345), (72752, 72758),
      (72760, 72765), (72767, 72767), (72850, 72871), (72874, 72880), (72882, 72883), (72885, 72886),
      (73009, 73014), (73018, 73018), (73020, 73021), (73023, 73029), (73031, 73031), (73104, 73105),
      (73109, 73109), (73111, 73111), (73459, 73460), (78896, 78904), (92912, 92916), (92976, 92982),
      (92992, 92995), (94031, 94031), (94095, 94111), (94176, 94177), (94179, 94180), (110576, 110579),
      (110581, 110587), (110589, 110590), (113821, 113822), (113824, 113827), (118528, 118573), (118576, 118598),
      (119143, 119145), (119155, 119170), (119173, 119179), (119210, 119213), (119362, 119364), (121344, 121398),
      (121403, 121452), (121461, 121461), (121476, 121476), (121499, 121503), (121505, 121519), (122880, 122886),
      (122888, 122904), (122907, 122913), (122915, 122916), (122918, 122922), (123184, 123197), (123566, 123566),
      (123628, 123631), (125136, 125142), (125252, 125259), (127995, 127999), (917505, 917505), (917536, 917631),
      (917760, 917999)]"

definition cased_ranges :: "(int \<times> int) list" where
  "cased_ranges =
     [(65, 90), (97, 122), (170, 170), (181, 181), (186, 186), (192, 214),
      (216, 246), (248, 442), (444, 447), (452, 659), (661, 687), (880, 883),
      (886, 887), (891, 893), (895, 895), (902, 902), (904, 906), (908, 908),
      (910, 929), (931, 1013), (1015, 1153), (1162, 1327), (1329, 1366), (1376, 1416),
      (4256, 4293), (4295, 4295), (4301, 4301), (4304, 4346), (4349, 4351), (5024, 5109),
      (5112, 5117), (7296, 7304), (7312, 7354), (7357, 7359), (7424, 7467), (7531, 7543),
      (7545, 7578), (7680, 7957), (7960, 7965), (7968, 8005), (8008, 8013), (8016, 8023),
      (8025, 8025), (8027, 8027), (8029, 8029), (8031, 8061), (8064, 8116), (8118, 8124),
      (8126, 8126), (8130, 8132), (8134, 8140), (8144, 8147), (8150, 8155), (8160, 8172),
      (8178, 8180), (8182, 8188), (8450, 8450), (8455, 8455), (8458, 8467), (8469, 8469),
      (8473, 8477), (8484, 8484), (8486, 8486), (8488, 8488), (8490, 8493), (8495, 8500),
      (8505, 8505), (8508, 8511), (8517, 8521), (8526, 8526), (8544, 8575), (8579, 8580),
      (9398, 9449), (11264, 11387), (11390, 11492), (11499, 11502), (11506, 11507), (11520, 11557),
      (11559, 11559), (11565, 11565), (42560, 42605), (42624, 42651), (42786, 42863), (42865, 42887),
      (42891, 42894), (42896, 42954), (42960, 42961), (42963, 42963), (42965, 42969), (42997, 42998),
      (43002, 43002), (43824, 43866), (43872, 43880), (43888, 43967), (64256, 64262), (64275, 64279),
      (65313, 65338), (65345, 65370), (66560, 66639), (66736, 66771), (66776, 66811), (66928, 66938),
      (66940, 66954), (66956, 66962), (66964, 66965), (66967, 66977), (66979, 66993), (66995, 67001),
      (67003, 67004), (68736, 68786), (68800, 68850), (71840, 71903), (93760, 93823), (119808, 119892),
      (119894, 119964), (119966, 119967), (119970, 119970), (119973, 119974), (119977, 119980), (119982, 119993),
      (119995, 119995), (119997, 120003), (120005, 120069), (120071, 120074), (120077, 120084), (120086, 120092),
      (120094, 120121), (120123, 120126), (120128, 120132), (120134, 120134), (120138, 120144), (120146, 120485),
      (120488, 120512), (120514, 120538), (120540, 120570), (120572, 120596), (120598, 120628), (120630, 120654),
      (120656, 120686), (120688, 120712), (120714, 120744), (120746, 120770), (120772, 120779), (122624, 122633),
      (122635, 122654), (125184, 125251), (127280, 127305), (127312, 127337), (127344, 127369)]"

fun in_ranges :: "(int \<times> int) list \<Rightarrow> int \<Rightarrow> bool" where
  "in_ranges [] c = False"
| "in_ranges ((lo, hi) # ranges) c = ((lo \<le> c \<and> c \<le> hi) \<or> in_ranges ranges c)"

definition case_ignorable :: "int \<Rightarrow> bool" where
  "case_ignorable c = in_ranges case_ignorable_ranges c"

definition cased :: "int \<Rightarrow> bool" where
  "cased c = in_ranges cased_ranges c"

text \<open>\<open>before\<close> holds the code points before the sigma, the nearest first.\<close>

definition final_sigma :: "pystr \<Rightarrow> pystr \<Rightarrow> bool" where
  "final_sigma before after =
     (case dropWhile case_ignorable before of
        [] \<Rightarrow> False
      | b # earlier \<Rightarrow>
          cased b \<and>
          (case dropWhile case_ignorable after of [] \<Rightarrow> True | a # rest \<Rightarrow> \<not> cased a))"

fun lower_from :: "pystr \<Rightarrow> pystr \<Rightarrow> pystr" where
  "lower_from before [] = []"
| "lower_from before (c # cs) =
     (if c = 931 then [if final_sigma before cs then 962 else 963] else lower_code c)
     @ lower_from (c # before) cs"

definition lower :: "pystr \<Rightarrow> pystr" where
  "lower s = lower_from [] s"

subsection \<open>Searching, splitting and joining\<close>

text \<open>
  \<open>contains k s\<close> is \<^verbatim>\<open>k in s\<close>; \<open>startswith\<close>, \<open>split\<close> (without argument: on runs of
  white space, the code points for which \<^verbatim>\<open>str.isspace()\<close> holds) and \<open>join\<close> are the
  methods of the same names.
\<close>

fun startswith :: "'a list \<Rightarrow> 'a list \<Rightarrow> bool" where
  "startswith s [] = True"
| "startswith [] (k # ks) = False"
| "startswith (c # cs) (k # ks) = (c = k \<and> startswith cs ks)"

fun contains :: "'a list \<Rightarrow> 'a list \<Rightarrow> bool" where
  "contains k [] = (k = [])"
| "contains k (c # cs) = (startswith (c # cs) k \<or> contains k cs)"

definition is_space :: "int \<Rightarrow> bool" where
  "is_space c =
     ((9 \<le> c \<and> c \<le> 13) \<or> (28 \<le> c \<and> c \<le> 32) \<or> c = 133 \<or> c = 160 \<or> c = 5760
      \<or> (8192 \<le> c \<and> c \<le> 8202) \<or> c = 8232 \<or> c = 8233 \<or> c = 8239 \<or> c = 8287
      \<or> c = 12288)"

fun split_acc :: "pystr \<Rightarrow> pystr \<Rightarrow> pystr list" where
  "split_acc w [] = (if w = [] then [] else [w])"
| "split_acc w (c # cs) =
     (if is_space c then (if w = [] then split_acc [] cs else w # split_acc [] cs)
      else split_acc (w @ [c]) cs)"

definition split :: "pystr \<Rightarrow> pystr list" where
  "split s = split_acc [] s"

fun join :: "'a list \<Rightarrow> 'a list list \<Rightarrow> 'a list" where
  "join sep [] = []"
| "join sep [w] = w"
| "join sep (w # v # ws) = w @ sep @ join sep (v # ws)"

text \<open>
  \<open>py_prefix xs n\<close> is the slice \<^verbatim>\<open>xs[:n]\<close>: the first \<open>n\<close> elements, and for a negative
  \<open>n\<close> all but the last \<open>-n\<close>.
\<close>

definition py_prefix :: "'a list \<Rightarrow> int \<Rightarrow> 'a list" where
  "py_prefix xs n = (if 0 \<le> n then take (nat n) xs else take (length xs - nat (- n)) xs)"

datatype py_error = TypeError | IndexError | AttributeError

section \<open>Data model\<close>

text \<open>The pipeline's output unit, a dict with the keys url, photographer, photographer_url.\<close>

record resolved_image =
  url :: string
  photographer :: string
  photographer_url :: string

section \<open>get_fallback_images\<close>

definition destination_types :: "(string \<times> pystr list) list" where
  "destination_types =
   [(''nature'',
       [str ''mountain'', str ''hill'', str ''peak'', str ''summit'', str ''valley'',
        str ''meadow'', str ''forest'', str ''woods'', str ''jungle'', str ''trail'',
        str ''hike'', str ''trekking'', str ''nature'', str ''wildlife'',
        str ''national park'', str ''reserve'']),
    (''water'',
       [str ''beach'', str ''ocean'', str ''sea'', str ''bay'', str ''gulf'',
        str ''lake'', str ''pond'', str ''river'', str ''stream'', str ''waterfall'',
        str ''falls'', str ''coast'', str ''shore'', str ''island'', str ''archipelago'',
        str ''marina'', str ''harbor'']),
    (''urban'',
       [str ''city'', str ''town'', str ''skyline'', str ''downtown'',
        str ''metropolitan'', str ''building'', str ''architecture'', str ''skyscraper'',
        str ''tower'', str ''plaza'', str ''square'', str ''street'', str ''avenue'',
        str ''boulevard'', str ''urban'']),
    (''heritage'',
       [str ''temple'', str ''church'', str ''mosque'', str ''monastery'',
        str ''shrine'', str ''cathedral'', str ''palace'', str ''castle'', str ''fort'',
        str ''fortress'', str ''monument'', str ''memorial'', str ''ruins'',
        str ''heritage'', str ''historical'', str ''ancient'', str ''archaeological'',
        str ''unesco'']),
    (''desert'',
       [str ''desert'', str ''dune'', str ''sand'', str ''arid'', str ''oasis'',
        str ''sahara'', str ''canyon'', str ''badlands'']),
    (''scenic'',
       [str ''landscape'', str ''scenic'', str ''panorama'', str ''view'', str ''vista'',
        str ''lookout'', str ''viewpoint'', str ''picturesque'', str ''countryside'',
        str ''rural''])]"

definition all_fallback_urls :: "(string \<times> string list) list" where
  "all_fallback_urls =
   [(''nature'',
      [''https://images.unsplash.com/photo-1506905925346-21bda4d32df4?auto=format&q=80&w=1200'',
       ''https://images.unsplash.com/photo-1511593358241-7eea1f3c84e5?auto=format&q=80&w=1200'',
       ''https://images.unsplash.com/photo-1464822759023-fed622ff2c3b?auto=format&q=80&w=1200'',
       ''https://images.unsplash.com/photo-1501785888041-af3ef285b470?auto=format&q=80&w=1200'']),
    (''water'',
      [''https://images.unsplash.com/photo-1507525428034-b723cf961d3e?auto=format&q=80&w=1200'',
       ''https://images.unsplash.com/photo-1505142468610-359e7d316be0?auto=format&q=80&w=1200'',
       ''https://images.unsplash.com/photo-1559827260-dc66d52bef19?auto=format&q=80&w=1200'',
       ''https://images.unsplash.com/photo-1544551763-46a013bb70d5?auto=format&q=80&w=1200'']),
    (''urban'',
      [''https://images.unsplash.com/photo-1480714378408-67cf0d13bc1b?auto=format&q=80&w=1200'',
       ''https://images.unsplash.com/photo-1514565131-fce0801e5785?auto=format&q=80&w=1200'',
       ''https://images.unsplash.com/photo-1477959858617-67f85cf4f1df?auto=format&q=80&w=1200'',
       ''https://images.unsplash.com/photo-1449824913935-59a10b8d2000?auto=format&q=80&w=1200'']),
    (''heritage'',
      [''https://images.unsplash.com/photo-1548013146-72479768bada?auto=format&q=80&w=1200'',
       ''https://images.unsplash.com/photo-1524492412937-b28074a5d7da?auto=format&q=80&w=1200'',
       ''https://images.unsplash.com/photo-1564507592333-c60657eea523?auto=format&q=80&w=1200'',
       ''https://images.unsplash.com/photo-1512428559087-560fa5ceab42?auto=format&q=80&w=1200'']),
    (''desert'',
      [''https://images.unsplash.com/photo-1509316785289-025f5b846b35?auto=format&q=80&w=1200'',
       ''https://images.unsplash.com/photo-1473580044384-7ba9967e16a0?auto=format&q=80&w=1200'',
       ''https://images.unsplash.com/photo-1547036967-23d11aacaee0?auto=format&q=80&w=1200'',
       ''https://images.unsplash.com/photo-1682687220742-aba13b6e50ba?auto=format&q=80&w=1200'']),
    (''scenic'',
      [''https://images.unsplash.com/photo-1469854523086-cc02fe5d8800?auto=format&q=80&w=1200'',
       ''https://images.unsplash.com/photo-1476514525535-07fb3b4ae5f1?auto=format&q=80&w=1200'',
       ''https://images.unsplash.com/photo-1530789253388-582c481c54b0?auto=format&q=80&w=1200'',
       ''https://images.unsplash.com/photo-1506905925346-21bda4d32df4?auto=format&q=80&w=1200''])]"

text \<open>\<^verbatim>\<open>all_fallback_urls.get(key, default)\<close>.\<close>

definition urls_get :: "string \<Rightarrow> string list \<Rightarrow> string list" where
  "urls_get key dflt = (case map_of all_fallback_urls key of Some us \<Rightarrow> us | None \<Rightarrow> dflt)"

text \<open>
  The score of a pool is the number of its keywords that occur in the lower-cased query:
  each keyword adds one to the pool's score when \<^verbatim>\<open>keyword in query_lower\<close>.
\<close>

definition scores :: "pystr \<Rightarrow> (string \<times> nat) list" where
  "scores query_lower =
     map (\<lambda>(dest_type, keywords).
            (dest_type, length (filter (\<lambda>keyword. contains keyword query_lower) keywords)))
         destination_types"

text \<open>
  \<^verbatim>\<open>sorted(scores.items(), key=lambda x: x[1], reverse=True)\<close>: Python's sort is stable, also
  with \<^verbatim>\<open>reverse=True\<close>, so pools of equal score keep the order of the dict. The stable
  insertion sort \<open>sort_key\<close> on the negated score is that order.
\<close>

definition sorted_types :: "pystr \<Rightarrow> (string \<times> nat) list" where
  "sorted_types query_lower = sort_key (\<lambda>x. - int (snd x)) (scores query_lower)"

definition matched_type :: "pystr \<Rightarrow> string" where
  "matched_type query_lower =
     (let st = sorted_types query_lower in if 0 < snd (hd st) then fst (hd st) else ''scenic'')"

definition fallback_image :: "string \<Rightarrow> resolved_image" where
  "fallback_image u =
     \<lparr>url = u, photographer = ''Unsplash'', photographer_url = ''https://unsplash.com''\<rparr>"

text \<open>
  The loop over one pool's URLs. The state is \<open>(result_images, used_urls)\<close>; \<open>Inl\<close> is the
  \<^verbatim>\<open>return result_images\<close> inside the loop, \<open>Inr\<close> the state when the loop ends.
\<close>

fun add_urls ::
  "int \<Rightarrow> string list \<Rightarrow> resolved_image list \<times> string set
     \<Rightarrow> resolved_image list + resolved_image list \<times> string set" where
  "add_urls count [] st = Inr st"
| "add_urls count (u # us) (result_images, used_urls) =
     (if u \<notin> used_urls then
        (let result_images' = result_images @ [fallback_image u];
             used_urls' = insert u used_urls
         in if count \<le> int (length result_images') then Inl result_images'
            else add_urls count us (result_images', used_urls'))
      else add_urls count us (result_images, used_urls))"

text \<open>The loop over the other pools, in the order of \<open>sorted_types\<close>.\<close>

fun add_pools ::
  "int \<Rightarrow> string \<Rightarrow> (string \<times> nat) list \<Rightarrow> resolved_image list \<times> string set
     \<Rightarrow> resolved_image list + resolved_image list \<times> string set" where
  "add_pools count matched [] st = Inr st"
| "add_pools count matched ((dest_type, sc) # rest) st =
     (if dest_type \<noteq> matched then
        (case add_urls count (urls_get dest_type []) st of
           Inl res \<Rightarrow> Inl res
         | Inr st' \<Rightarrow> add_pools count matched rest st')
      else add_pools count matched rest st)"

definition get_fallback_images :: "pystr \<Rightarrow> int \<Rightarrow> resolved_image list" where
  "get_fallback_images query count =
     (let query_lower = lower query;
          matched = matched_type query_lower;
          primary_urls = urls_get matched (urls_get ''scenic'' [])
      in case add_urls count primary_urls ([], {}) of
           Inl res \<Rightarrow> res
         | Inr st \<Rightarrow>
             (case add_pools count matched (sorted_types query_lower) st of
                Inl res \<Rightarrow> res
              | Inr (result_images, used_urls) \<Rightarrow>
                  if result_images \<noteq> [] then py_prefix result_images count
                  else [fallback_image
                    ''https://images.unsplash.com/photo-1469854523086-cc02fe5d8800?auto=format&q=80&w=1200'']))"


subsection \<open>The pool choice as the specification words it\<close>

text \<open>
  The six pools in their declaration order, the score of a pool on a text (how many of the
  pool's keywords occur in it), and the pool the specification selects: the highest-scoring
  one, the earliest in declaration order among equals, and scenic when every score is 0.
\<close>

definition pool_names :: "string list" where
  "pool_names = map fst destination_types"

definition score :: "string \<Rightarrow> pystr \<Rightarrow> nat" where
  "score pool text =
     (case map_of destination_types pool of
        Some keywords \<Rightarrow> length (filter (\<lambda>keyword. contains keyword text) keywords)
      | None \<Rightarrow> 0)"

definition highest_scoring :: "pystr \<Rightarrow> string" where
  "highest_scoring text =
     (let best = fold max (map (\<lambda>p. score p text) pool_names) 0
      in if best = 0 then ''scenic''
         else hd (filter (\<lambda>p. score p text = best) pool_names))"

text \<open>Loop invariant of the fallback loops: nothing emitted yet, or still short of \<open>count\<close>.\<close>

definition below :: "int \<Rightarrow> 'a list \<Rightarrow> bool" where
  "below count r = (r = [] \<or> int (length r) < count)"

text \<open>The set \<open>used_urls\<close> holds exactly the URLs emitted so far, each once.\<close>

definition used_ok :: "resolved_image list \<times> string set \<Rightarrow> bool" where
  "used_ok st = (snd st = set (map url (fst st)) \<and> distinct (map url (fst st)))"

section \<open>JSON values and the Python operations applied to them\<close>

text \<open>
  What \<^verbatim>\<open>json.loads\<close> returns: None, booleans, integers, strings, lists and dicts (a dict
  as its list of items). Numbers with a fraction or an exponent are not represented.
\<close>

datatype json =
  JNull | JBool bool | JInt int | JStr string | JArr "json list" | JObj "(string \<times> json) list"

text \<open>The truth value of \<^verbatim>\<open>if x:\<close>.\<close>

fun truthy :: "json \<Rightarrow> bool" where
  "truthy JNull = False"
| "truthy (JBool b) = b"
| "truthy (JInt i) = (i \<noteq> 0)"
| "truthy (JStr s) = (s \<noteq> [])"
| "truthy (JArr xs) = (xs \<noteq> [])"
| "truthy (JObj kvs) = (kvs \<noteq> [])"

text \<open>\<^verbatim>\<open>len(x)\<close>: None, booleans and integers have no length.\<close>

fun py_len :: "json \<Rightarrow> py_error + nat" where
  "py_len (JStr s) = Inr (length s)"
| "py_len (JArr xs) = Inr (length xs)"
| "py_len (JObj kvs) = Inr (length kvs)"
| "py_len j = Inl TypeError"

text \<open>\<^verbatim>\<open>x.get(key, default)\<close>: only a dict has the method.\<close>

fun py_get :: "json \<Rightarrow> string \<Rightarrow> json \<Rightarrow> py_error + json" where
  "py_get (JObj kvs) k dflt = Inr (case map_of kvs k of Some v \<Rightarrow> v | None \<Rightarrow> dflt)"
| "py_get j k dflt = Inl AttributeError"

text \<open>
  \<^verbatim>\<open>for idx in x\<close>: the elements of a list, the characters of a string, the keys of a
  dict; nothing else can be iterated.
\<close>

fun py_iter :: "json \<Rightarrow> py_error + json list" where
  "py_iter (JArr xs) = Inr xs"
| "py_iter (JStr s) = Inr (map (\<lambda>c. JStr [c]) s)"
| "py_iter (JObj kvs) = Inr (map (\<lambda>kv. JStr (fst kv)) kvs)"
| "py_iter j = Inl TypeError"

text \<open>
  The integer a value stands for in \<^verbatim>\<open>idx < len(xs)\<close> and \<^verbatim>\<open>xs[idx]\<close>: an integer itself,
  a boolean as 0 or 1; comparing anything else with an integer raises TypeError.
\<close>

fun as_int :: "json \<Rightarrow> py_error + int" where
  "as_int (JInt i) = Inr i"
| "as_int (JBool b) = Inr (if b then 1 else 0)"
| "as_int j = Inl TypeError"

text \<open>
  \<^verbatim>\<open>xs[i]\<close>: a negative index counts from the end, and an index outside
  \<open>-len(xs) .. len(xs) - 1\<close> raises IndexError.
\<close>

definition py_index :: "'a list \<Rightarrow> int \<Rightarrow> py_error + 'a" where
  "py_index xs i =
     (if 0 \<le> i \<and> i < int (length xs) then Inr (xs ! nat i)
      else if i < 0 \<and> - int (length xs) \<le> i then Inr (xs ! nat (int (length xs) + i))
      else Inl IndexError)"

text \<open>\<^verbatim>\<open>d[k] = v\<close> on a dict kept as its list of items, in insertion order.\<close>

fun dict_set :: "(string \<times> string) list \<Rightarrow> string \<Rightarrow> string \<Rightarrow> (string \<times> string) list" where
  "dict_set [] k v = [(k, v)]"
| "dict_set ((k', v') # d) k v = (if k' = k then (k', v) # d else (k', v') # dict_set d k v)"

section \<open>Candidates and their URLs\<close>

text \<open>
  A URL as \<^verbatim>\<open>urlparse\<close> returns it, with the query string already split by
  \<^verbatim>\<open>parse_qsl(parsed.query, keep_blank_values=True)\<close> into its (key, value) pairs. These two
  functions are Python's library; the pipeline's own code starts from their result.
  The components are written as the bytes of their UTF-8 form, which is what
  \<^verbatim>\<open>quote_plus\<close> escapes; a text with no UTF-8 form (a lone surrogate), on which
  \<^verbatim>\<open>urlencode\<close> raises, is not a value of this type.
\<close>

record parsed_url =
  u_scheme :: string
  u_netloc :: string
  u_path :: string
  u_params :: string
  u_query :: "(string \<times> string) list"
  u_fragment :: string

text \<open>
  A RawCandidate of the search API. \<open>photo_id\<close> is \<^verbatim>\<open>photo.get('id')\<close>, absent or a string;
  \<open>regular\<close> is \<^verbatim>\<open>photo['urls']['regular']\<close>; \<open>user_name\<close> and \<open>user_html\<close> are
  \<^verbatim>\<open>photo['user']['name']\<close> and \<^verbatim>\<open>photo['user']['links']['html']\<close>. \<open>tags\<close> holds, for
  each entry of \<^verbatim>\<open>photo.get('tags', [])\<close>, what \<^verbatim>\<open>tag.get('title', '')\<close> gives: the title,
  the empty string when the tag has no title, and \<open>None\<close> when the title is null. The two
  descriptions may be null.
\<close>

record photo =
  photo_id :: "string option"
  regular :: parsed_url
  user_name :: string
  user_html :: string
  tags :: "pystr option list"
  alt_description :: "pystr option"
  description :: "pystr option"

subsection \<open>urlencode and urlunparse\<close>

definition always_safe :: "char \<Rightarrow> bool" where
  "always_safe c =
     (let n = (of_char c :: nat)
      in (48 \<le> n \<and> n \<le> 57) \<or> (65 \<le> n \<and> n \<le> 90) \<or> (97 \<le> n \<and> n \<le> 122)
         \<or> n = 45 \<or> n = 46 \<or> n = 95 \<or> n = 126)"

definition hex_digit :: "nat \<Rightarrow> char" where
  "hex_digit k = ''0123456789ABCDEF'' ! (k mod 16)"

definition quote_char :: "char \<Rightarrow> string" where
  "quote_char c =
     (if always_safe c then [c]
      else if c = CHR '' '' then ''+''
      else CHR ''%'' # [hex_digit ((of_char c :: nat) div 16), hex_digit (of_char c :: nat)])"

definition quote_plus :: "string \<Rightarrow> string" where
  "quote_plus s = concat (map quote_char s)"

definition urlencode :: "(string \<times> string) list \<Rightarrow> string" where
  "urlencode ps = join ''&'' (map (\<lambda>(k, v). quote_plus k @ ''='' @ quote_plus v) ps)"

definition uses_netloc :: "string list" where
  "uses_netloc =
     ['''', ''ftp'', ''http'', ''gopher'', ''nntp'', ''telnet'', ''imap'', ''wais'', ''file'',
      ''mms'', ''https'', ''shttp'', ''snews'', ''prospero'', ''rtsp'', ''rtsps'', ''rtspu'',
      ''rsync'', ''svn'', ''svn+ssh'', ''sftp'', ''nfs'', ''git'', ''git+ssh'', ''ws'', ''wss'']"

text \<open>
  \<^verbatim>\<open>urlunparse((scheme, netloc, path, params, query, fragment))\<close> with the query string
  already encoded.
\<close>

definition urlunparse ::
  "string \<Rightarrow> string \<Rightarrow> string \<Rightarrow> string \<Rightarrow> string \<Rightarrow> string \<Rightarrow> string" where
  "urlunparse scheme netloc pth prms qs fragment =
     (let u0 = (if prms \<noteq> [] then pth @ '';'' @ prms else pth);
          u1 = (if netloc \<noteq> [] \<or> (scheme \<noteq> [] \<and> scheme \<in> set uses_netloc) \<or> take 2 u0 = ''//''
                then ''//'' @ netloc @ (if u0 \<noteq> [] \<and> take 1 u0 \<noteq> ''/'' then ''/'' @ u0 else u0)
                else u0);
          u2 = (if scheme \<noteq> [] then scheme @ '':'' @ u1 else u1);
          u3 = (if qs \<noteq> [] then u2 @ ''?'' @ qs else u2)
      in if fragment \<noteq> [] then u3 @ ''#'' @ fragment else u3)"

subsection \<open>URL normalisation (the body of the accumulation loop)\<close>

text \<open>\<^verbatim>\<open>param_dict = {key: value for key, value in existing_params}\<close>.\<close>

definition param_dict :: "(string \<times> string) list \<Rightarrow> (string \<times> string) list" where
  "param_dict existing_params = fold (\<lambda>(k, v) d. dict_set d k v) existing_params []"

definition has_key :: "(string \<times> string) list \<Rightarrow> string \<Rightarrow> bool" where
  "has_key d k = (k \<in> set (map fst d))"

text \<open>The three defaults, each set only when its key is not in the dict.\<close>

definition new_params :: "(string \<times> string) list \<Rightarrow> (string \<times> string) list" where
  "new_params existing_params =
     (let d0 = param_dict existing_params;
          d1 = (if \<not> has_key d0 ''auto'' then dict_set d0 ''auto'' ''format'' else d0);
          d2 = (if \<not> has_key d1 ''q'' then dict_set d1 ''q'' ''80'' else d1)
      in if \<not> has_key d2 ''w'' then dict_set d2 ''w'' ''1200'' else d2)"

definition optimized_url :: "parsed_url \<Rightarrow> string" where
  "optimized_url parsed =
     urlunparse (u_scheme parsed) (u_netloc parsed) (u_path parsed) (u_params parsed)
       (urlencode (new_params (u_query parsed))) (u_fragment parsed)"

definition image_data :: "photo \<Rightarrow> resolved_image" where
  "image_data p =
     \<lparr>url = optimized_url (regular p), photographer = user_name p,
      photographer_url = user_html p\<rparr>"

text \<open>\<^verbatim>\<open>photo.get('id', '')\<close>.\<close>

definition id_of :: "photo \<Rightarrow> string" where
  "id_of p = (case photo_id p of Some s \<Rightarrow> s | None \<Rightarrow> [])"

text \<open>
  The loop \<^verbatim>\<open>for idx in ranked_indices\<close> over the elements of the ranking. The state is
  \<open>(accumulated_images, used_photo_ids, used_urls)\<close>. \<open>Inl\<close> is an exception that leaves the
  loop, and the function, uncaught.
\<close>

fun accumulate ::
  "int \<Rightarrow> photo list \<Rightarrow> json list \<Rightarrow> resolved_image list \<times> string set \<times> string set
     \<Rightarrow> py_error + resolved_image list" where
  "accumulate count raw_photo_data [] (acc, used_photo_ids, used_urls) = Inr acc"
| "accumulate count raw_photo_data (idx # rest) (acc, used_photo_ids, used_urls) =
     (if count \<le> int (length acc) then Inr acc
      else
        (case as_int idx of
           Inl e \<Rightarrow> Inl e
         | Inr i \<Rightarrow>
             if i < int (length raw_photo_data) then
               (case py_index raw_photo_data i of
                  Inl e \<Rightarrow> Inl e
                | Inr p \<Rightarrow>
                    if id_of p \<in> used_photo_ids then
                      accumulate count raw_photo_data rest (acc, used_photo_ids, used_urls)
                    else if optimized_url (regular p) \<in> used_urls then
                      accumulate count raw_photo_data rest (acc, used_photo_ids, used_urls)
                    else
                      accumulate count raw_photo_data rest
                        (acc @ [image_data p], insert (id_of p) used_photo_ids,
                         insert (optimized_url (regular p)) used_urls))
             else accumulate count raw_photo_data rest (acc, used_photo_ids, used_urls)))"

section \<open>The outside world\<close>

text \<open>
  What one call of \<^verbatim>\<open>requests.get\<close> does: it raises, or it returns a response with a
  status code and a body. The body matters for status 200 only: \<open>Malformed\<close> when
  \<^verbatim>\<open>response.json()\<close> raises or the data has no \<^verbatim>\<open>get\<close>, and otherwise the list
  \<^verbatim>\<open>data.get('results', [])\<close>.
\<close>

datatype http_body = Malformed | Results "photo list"

datatype http_reply = TransportError | Reply int http_body

text \<open>
  What one call of \<^verbatim>\<open>client.models.generate_content\<close> followed by \<^verbatim>\<open>json.loads\<close> does:
  the call raises; \<^verbatim>\<open>response.text\<close> is empty or None; \<^verbatim>\<open>json.loads\<close> raises; or it
  returns a JSON value.
\<close>

datatype gen_reply = CallRaises | NoText | Unparsable | Parsed json

text \<open>The statements sent to the database, and the calls that leave the process.\<close>

record cache_row =
  row_query :: pystr
  image_index :: int
  image_url :: string
  row_photographer :: string
  row_photographer_url :: string

datatype stmt = Begin | Delete pystr | Insert cache_row | Commit

datatype event = HttpGet pystr | Generate string | DbExecute stmt | DbRollback

text \<open>
  The configuration and the services of one call of fetch_unsplash_images:
  UNSPLASH_ACCESS_KEY; the reply to the search request of a given attempt and query; the
  module variables AI_AVAILABLE and client (as: client is not None); the reply of a model
  variant; and the position of the database statement that raises, if one does.
\<close>

record world =
  unsplash_access_key :: string
  http :: "nat \<Rightarrow> pystr \<Rightarrow> http_reply"
  ai_available :: bool
  client :: bool
  generate :: "string \<Rightarrow> gen_reply"
  db_fault :: "nat option"

section \<open>select_best_destination_images\<close>

definition identity_ranking :: "'a list \<Rightarrow> json" where
  "identity_ranking image_candidates = JArr (map (\<lambda>i. JInt (int i)) [0 ..< length image_candidates])"

text \<open>
  The loop over \<open>models_to_try\<close>. \<open>Some ranked\<close> is the \<^verbatim>\<open>return ranked\<close> inside the loop;
  every exception in the body is caught and continues with the next model. The length of
  \<open>ranked\<close> is taken for the log line before the return.
\<close>

fun try_models :: "(string \<Rightarrow> gen_reply) \<Rightarrow> string list \<Rightarrow> json option \<times> event list" where
  "try_models gen [] = (None, [])"
| "try_models gen (model_name # rest) =
     (let continue = (\<lambda>u::unit. case try_models gen rest of (r, tr) \<Rightarrow> (r, Generate model_name # tr))
      in case gen model_name of
           CallRaises \<Rightarrow> continue ()
         | NoText \<Rightarrow> continue ()
         | Unparsable \<Rightarrow> continue ()
         | Parsed result \<Rightarrow>
             (case py_get result ''ranked_indices'' (JArr []) of
                Inl e \<Rightarrow> continue ()
              | Inr ranked \<Rightarrow>
                  if truthy ranked then
                    (case py_len ranked of
                       Inl e \<Rightarrow> continue ()
                     | Inr n \<Rightarrow> (Some ranked, [Generate model_name]))
                  else continue ()))"

definition models_to_try :: "string list" where
  "models_to_try = [''gemini-2.5-flash'', ''gemini-2.0-flash-exp'']"

text \<open>
  The loop that builds \<open>image_descriptions\<close> stands before the \<^verbatim>\<open>try\<close>. Its texts go into the
  prompt only, but where a candidate has tags it joins the titles of the first five with
  \<^verbatim>\<open>', '.join\<close>, which raises TypeError for a title that is null.
\<close>

definition describe :: "photo \<Rightarrow> py_error + unit" where
  "describe img =
     (if tags img \<noteq> [] \<and> None \<in> set (take 5 (tags img)) then Inl TypeError else Inr ())"

fun image_descriptions :: "photo list \<Rightarrow> py_error + unit" where
  "image_descriptions [] = Inr ()"
| "image_descriptions (img # rest) =
     (case describe img of Inl e \<Rightarrow> Inl e | Inr u \<Rightarrow> image_descriptions rest)"

text \<open>
  The function returns what it ranks with and, here, the calls it made; \<open>Inl\<close> is an
  exception that reaches the caller.
\<close>

definition select_best_destination_images ::
  "world \<Rightarrow> pystr \<Rightarrow> photo list \<Rightarrow> (py_error + json) \<times> event list" where
  "select_best_destination_images w destination image_candidates =
     (if \<not> ai_available w \<or> \<not> client w \<or> image_candidates = [] then
        (Inr (identity_ranking image_candidates), [])
      else
        (case image_descriptions image_candidates of
           Inl e \<Rightarrow> (Inl e, [])
         | Inr u \<Rightarrow>
             (case try_models (generate w) models_to_try of
                (Some ranked, tr) \<Rightarrow> (Inr ranked, tr)
              | (None, tr) \<Rightarrow> (Inr (identity_ranking image_candidates), tr))))"

section \<open>The search step of fetch_unsplash_images\<close>

definition people_keywords :: "pystr list" where
  "people_keywords = [str ''selfie'', str ''portrait'']"

definition sanitized_query :: "pystr \<Rightarrow> pystr" where
  "sanitized_query q =
     join (str '' '')
       (filter (\<lambda>word. word \<notin> set people_keywords \<and> \<not> startswith word (str ''-''))
          (split (lower q)))"

definition destination_name :: "pystr \<Rightarrow> pystr" where
  "destination_name q =
     (let s = sanitized_query q in if s \<noteq> [] then hd (split s) else q)"

definition query_variations :: "pystr \<Rightarrow> pystr list" where
  "query_variations q =
     (let s = sanitized_query q;
          d = destination_name q;
          words = split s;
          has_india = (str ''india'' \<in> set words \<or> str ''indian'' \<in> set words)
      in [s,
          if 1 < length words then d @ str '' landmark'' else s,
          if 1 < length words then d @ str '' cityscape'' else s @ str '' city'',
          if has_india then str ''india rajasthan heritage'' else d @ str '' architecture'',
          if has_india then str ''india tourist attraction beautiful''
          else s @ str '' travel destination''])"

definition or_empty :: "pystr option \<Rightarrow> pystr" where
  "or_empty x = (case x of Some s \<Rightarrow> s | None \<Rightarrow> [])"

text \<open>
  \<^verbatim>\<open>[tag.get('title', '').lower() for tag in photo.get('tags', [])]\<close>: a null title has
  no \<^verbatim>\<open>lower\<close> and raises AttributeError.
\<close>

fun lower_titles :: "pystr option list \<Rightarrow> py_error + pystr list" where
  "lower_titles [] = Inr []"
| "lower_titles (None # rest) = Inl AttributeError"
| "lower_titles (Some title # rest) =
     (case lower_titles rest of Inl e \<Rightarrow> Inl e | Inr ts \<Rightarrow> Inr (lower title # ts))"

definition has_people_focus :: "photo \<Rightarrow> py_error + bool" where
  "has_people_focus p =
     (case lower_titles (tags p) of
        Inl e \<Rightarrow> Inl e
      | Inr ts \<Rightarrow>
          (let text_to_check =
                 join (str '' '') ts @ str '' '' @ lower (or_empty (alt_description p))
                   @ str '' '' @ lower (or_empty (description p))
           in Inr (\<exists>keyword \<in> set people_keywords. contains keyword text_to_check)))"

text \<open>
  The loop over the results of one response: every photo is appended to
  \<open>raw_photo_data\<close> first and to \<open>filtered_photo_data\<close> when it has no people focus. The
  third component tells that an exception left the loop; the photos after it are not
  looked at.
\<close>

fun add_photos :: "photo list \<Rightarrow> photo list \<Rightarrow> photo list \<Rightarrow> photo list \<times> photo list \<times> bool" where
  "add_photos [] raw filt = (raw, filt, False)"
| "add_photos (p # rest) raw filt =
     (case has_people_focus p of
        Inl e \<Rightarrow> (raw @ [p], filt, True)
      | Inr people \<Rightarrow> add_photos rest (raw @ [p]) (if people then filt else filt @ [p]))"

text \<open>
  The loop \<^verbatim>\<open>for attempt in range(max_attempts)\<close>, over the variations that are left, with
  the lists \<open>raw_photo_data\<close> and \<open>filtered_photo_data\<close> collected so far. It returns both
  lists and the requests it sent. Every exception in the body is caught and the loop goes
  on; the test that ends the search early is reached only without one.
\<close>

fun search_loop ::
  "(nat \<Rightarrow> pystr \<Rightarrow> http_reply) \<Rightarrow> int \<Rightarrow> nat \<Rightarrow> pystr list \<Rightarrow> photo list \<Rightarrow> photo list
     \<Rightarrow> photo list \<times> photo list \<times> event list" where
  "search_loop reply count attempt [] raw filt = (raw, filt, [])"
| "search_loop reply count attempt (current_query # rest) raw filt =
     (let continue = (\<lambda>raw' filt'.
            case search_loop reply count (Suc attempt) rest raw' filt' of
              (r, f, tr) \<Rightarrow> (r, f, HttpGet current_query # tr))
      in case reply attempt current_query of
           TransportError \<Rightarrow> continue raw filt
         | Reply status body \<Rightarrow>
             if status = 200 then
               (case body of
                  Malformed \<Rightarrow> continue raw filt
                | Results photos \<Rightarrow>
                    (case add_photos photos raw filt of
                       (raw', filt', raised) \<Rightarrow>
                         if \<not> raised \<and> count * 2 \<le> int (length filt')
                         then (raw', filt', [HttpGet current_query])
                         else continue raw' filt'))
             else continue raw filt)"

section \<open>The image cache\<close>

text \<open>
  The table image_cache as the list of its rows (the columns id and cached_at are never
  read). \<^verbatim>\<open>SELECT * FROM image_cache WHERE query = ? ORDER BY image_index LIMIT ?\<close>: in
  SQLite a negative limit is no limit.
\<close>

definition sql_limit :: "int \<Rightarrow> 'a list \<Rightarrow> 'a list" where
  "sql_limit n xs = (if n < 0 then xs else take (nat n) xs)"

definition cache_lookup :: "cache_row list \<Rightarrow> pystr \<Rightarrow> int \<Rightarrow> cache_row list" where
  "cache_lookup db q count =
     sql_limit count (sort_key image_index (filter (\<lambda>r. row_query r = q) db))"

definition row_image :: "cache_row \<Rightarrow> resolved_image" where
  "row_image r =
     \<lparr>url = image_url r, photographer = row_photographer r,
      photographer_url = row_photographer_url r\<rparr>"

text \<open>
  One statement on the rows of the open transaction. An INSERT that breaks
  UNIQUE(query, image_index) raises (\<open>None\<close>).
\<close>

fun execute :: "stmt \<Rightarrow> cache_row list \<Rightarrow> cache_row list option" where
  "execute Begin rows = Some rows"
| "execute (Delete q) rows = Some (filter (\<lambda>r. row_query r \<noteq> q) rows)"
| "execute (Insert r) rows =
     (if \<exists>r' \<in> set rows. row_query r' = row_query r \<and> image_index r' = image_index r
      then None else Some (rows @ [r]))"
| "execute Commit rows = Some rows"

text \<open>
  The statements of the \<^verbatim>\<open>try\<close> block in order, from position \<open>k\<close>. \<open>None\<close>: a statement
  raised, by itself or because the world makes the statement at this position fail.
\<close>

fun run_statements ::
  "nat option \<Rightarrow> nat \<Rightarrow> stmt list \<Rightarrow> cache_row list \<Rightarrow> cache_row list option \<times> event list" where
  "run_statements fault k [] rows = (Some rows, [])"
| "run_statements fault k (s # ss) rows =
     (if fault = Some k then (None, [DbExecute s])
      else
        (case execute s rows of
           None \<Rightarrow> (None, [DbExecute s])
         | Some rows' \<Rightarrow>
             (case run_statements fault (Suc k) ss rows' of
                (r, tr) \<Rightarrow> (r, DbExecute s # tr))))"

definition cache_statements :: "pystr \<Rightarrow> resolved_image list \<Rightarrow> stmt list" where
  "cache_statements q accumulated_images =
     Begin # Delete q #
     map (\<lambda>(idx, img).
            Insert \<lparr>row_query = q, image_index = int idx, image_url = url img,
                    row_photographer = photographer img,
                    row_photographer_url = photographer_url img\<rparr>)
         (enumerate 0 accumulated_images)
     @ [Commit]"

text \<open>
  The \<^verbatim>\<open>try\<close> / \<^verbatim>\<open>except\<close> around the cache update: when every statement up to the commit
  succeeds the rows of the transaction are the new table; when one raises,
  \<^verbatim>\<open>db.rollback()\<close> leaves the table as it was.
\<close>

definition replace_cache ::
  "nat option \<Rightarrow> pystr \<Rightarrow> resolved_image list \<Rightarrow> cache_row list
     \<Rightarrow> cache_row list \<times> event list" where
  "replace_cache fault q accumulated_images db =
     (case run_statements fault 0 (cache_statements q accumulated_images) db of
        (Some rows, tr) \<Rightarrow> (rows, tr)
      | (None, tr) \<Rightarrow> (db, tr @ [DbRollback]))"

section \<open>fetch_unsplash_images\<close>

text \<open>The padding loop over the fallbacks, with its \<^verbatim>\<open>break\<close>.\<close>

fun pad :: "int \<Rightarrow> resolved_image list \<Rightarrow> resolved_image list \<Rightarrow> resolved_image list" where
  "pad count [] acc = acc"
| "pad count (fallback # rest) acc =
     (if url fallback \<notin> set (map url acc) then
        (let acc' = acc @ [fallback]
         in if count \<le> int (length acc') then acc' else pad count rest acc')
      else pad count rest acc)"

record outcome =
  returned :: "py_error + resolved_image list"
  db_after :: "cache_row list"
  trace :: "event list"

definition fetch_unsplash_images :: "world \<Rightarrow> cache_row list \<Rightarrow> pystr \<Rightarrow> int \<Rightarrow> outcome" where
  "fetch_unsplash_images w db q count =
     (let cached = cache_lookup db q count in
      if count \<le> int (length cached) then
        \<lparr>returned = Inr (map row_image (py_prefix cached count)), db_after = db, trace = []\<rparr>
      else if unsplash_access_key w = [] then
        \<lparr>returned = Inr (get_fallback_images q count), db_after = db, trace = []\<rparr>
      else
        (case search_loop (http w) count 0 (query_variations q) [] [] of
           (raw, filt, tr1) \<Rightarrow>
             (let raw_photo_data = (if filt \<noteq> [] then filt else raw) in
              if raw_photo_data = [] then
                \<lparr>returned = Inr (get_fallback_images q count), db_after = db, trace = tr1\<rparr>
              else
                (case select_best_destination_images w (destination_name q) raw_photo_data of
                   (Inl e, tr2) \<Rightarrow> \<lparr>returned = Inl e, db_after = db, trace = tr1 @ tr2\<rparr>
                 | (Inr ranked_indices, tr2) \<Rightarrow>
                     (case py_iter ranked_indices of
                        Inl e \<Rightarrow> \<lparr>returned = Inl e, db_after = db, trace = tr1 @ tr2\<rparr>
                      | Inr idxs \<Rightarrow>
                          (case accumulate count raw_photo_data idxs ([], {}, {}) of
                             Inl e \<Rightarrow> \<lparr>returned = Inl e, db_after = db, trace = tr1 @ tr2\<rparr>
                           | Inr accumulated_images \<Rightarrow>
                               (case (if accumulated_images \<noteq> []
                                      then replace_cache (db_fault w) q accumulated_images db
                                      else (db, [])) of
                                  (db', tr3) \<Rightarrow>
                                    (let padded =
                                       (if int (length accumulated_images) < count then
                                          pad count
                                            (get_fallback_images q
                                               (count - int (length accumulated_images)))
                                            accumulated_images
                                        else accumulated_images)
                                     in \<lparr>returned = Inr (py_prefix padded count),
                                         db_after = db', trace = tr1 @ tr2 @ tr3\<rparr>))))))))"

text \<open>The tables the code can leave behind, starting from the empty table of init_db.\<close>

inductive reachable :: "cache_row list \<Rightarrow> bool" where
  initial: "reachable []"
| call: "reachable db \<Longrightarrow> reachable (db_after (fetch_unsplash_images w db q count))"

section \<open>Notions of the specification\<close>

text \<open>The default parameters of URL normalisation, in the order the code sets them.\<close>

definition default_params :: "(string \<times> string) list" where
  "default_params = [(''auto'', ''format''), (''q'', ''80''), (''w'', ''1200'')]"

text \<open>The part of a rendered URL before its query string.\<close>

definition url_base :: "parsed_url \<Rightarrow> string" where
  "url_base parsed =
     urlunparse (u_scheme parsed) (u_netloc parsed) (u_path parsed) (u_params parsed) [] []"

text \<open>
  Invariant of the accumulation loop: the accumulated images are the images of a list of
  chosen candidates whose ids and whose normalised URLs are all different, and the two
  sets hold exactly these ids and URLs.
\<close>

definition chosen_ok ::
  "photo list \<Rightarrow> photo list \<Rightarrow> resolved_image list \<times> string set \<times> string set \<Rightarrow> bool" where
  "chosen_ok raw chosen st =
     (case st of (acc, ids, urls) \<Rightarrow>
        acc = map image_data chosen
        \<and> ids = set (map id_of chosen)
        \<and> urls = set (map (\<lambda>p. optimized_url (regular p)) chosen)
        \<and> set chosen \<subseteq> set raw
        \<and> distinct (map id_of chosen)
        \<and> distinct (map (\<lambda>p. optimized_url (regular p)) chosen))"

text \<open>Invariant of the cache table: the rows of one query have different URLs.\<close>

definition cache_ok :: "cache_row list \<Rightarrow> bool" where
  "cache_ok db = (\<forall>q. distinct (map image_url (filter (\<lambda>r. row_query r = q) db)))"

text \<open>The rows the cache update inserts for a query.\<close>

definition new_rows :: "pystr \<Rightarrow> resolved_image list \<Rightarrow> cache_row list" where
  "new_rows q imgs =
     map (\<lambda>(idx, img).
            \<lparr>row_query = q, image_index = int idx, image_url = url img,
             row_photographer = photographer img,
             row_photographer_url = photographer_url img\<rparr>)
         (enumerate 0 imgs)"


section \<open>Concrete inputs\<close>

text \<open>
  A candidate whose regular URL is the first photo of the scenic pool, without a query
  string; a world with a search key in which the first search request returns this one
  candidate, every later request fails, the ranking service is not configured and the
  database works; and three cache rows of earlier calls, two of them of the query "trip".
\<close>

definition example_photo :: photo where
  "example_photo =
     \<lparr>photo_id = Some ''abc'',
      regular = \<lparr>u_scheme = ''https'', u_netloc = ''images.unsplash.com'',
                 u_path = ''/photo-1469854523086-cc02fe5d8800'', u_params = [],
                 u_query = [], u_fragment = []\<rparr>,
      user_name = ''Ann'', user_html = ''https://unsplash.com/@ann'',
      tags = [Some (str ''canyon'')], alt_description = None,
      description = Some (str ''A road'')\<rparr>"

definition example_world :: world where
  "example_world =
     \<lparr>unsplash_access_key = ''key'',
      http = (\<lambda>attempt current_query.
                if attempt = 0 then Reply 200 (Results [example_photo]) else TransportError),
      ai_available = False, client = False,
      generate = (\<lambda>model_name. CallRaises),
      db_fault = None\<rparr>"

definition example_row :: cache_row where
  "example_row =
     \<lparr>row_query = str ''trip'', image_index = 0, image_url = ''https://example.org/old.jpg'',
      row_photographer = ''Bob'', row_photographer_url = ''https://unsplash.com/@bob''\<rparr>"

definition example_row2 :: cache_row where
  "example_row2 =
     \<lparr>row_query = str ''trip'', image_index = 1, image_url = ''https://example.org/new.jpg'',
      row_photographer = ''Cy'', row_photographer_url = ''https://unsplash.com/@cy''\<rparr>"

definition example_row3 :: cache_row where
  "example_row3 =
     \<lparr>row_query = str ''goa'', image_index = 0, image_url = ''https://example.org/goa.jpg'',
      row_photographer = ''Di'', row_photographer_url = ''https://unsplash.com/@di''\<rparr>"

section \<open>Properties of get_fallback_images\<close>

subsection \<open>The head of a stable sort\<close>

lemma hd_sort_key_min:
  assumes "xs \<noteq> []"
  shows "hd (sort_key f xs) \<in> set xs" and "\<forall>y\<in>set xs. f (hd (sort_key f xs)) \<le> f y"
proof -
  have ne: "sort_key f xs \<noteq> []" using assms by (metis length_0_conv length_sort)
  then obtain h t where ht: "sort_key f xs = h # t" by (cases "sort_key f xs") auto
  have "h \<in> set (sort_key f xs)" using ht by simp
  then have "h \<in> set xs" by simp
  then show "hd (sort_key f xs) \<in> set xs" using ht by simp
  have "sorted (map f (sort_key f xs))" by (rule sorted_sort_key)
  then have "\<forall>y\<in>set t. f h \<le> f y" using ht by simp
  moreover have "set xs = set (h # t)" using ht by (metis set_sort)
  ultimately have "\<forall>y\<in>set xs. f h \<le> f y" by simp
  then show "\<forall>y\<in>set xs. f (hd (sort_key f xs)) \<le> f y" using ht by simp
qed

lemma hd_sort_key_first:
  assumes "xs \<noteq> []"
  shows "hd (sort_key f xs) = hd (filter (\<lambda>y. f y = f (hd (sort_key f xs))) xs)"
proof -
  have ne: "sort_key f xs \<noteq> []" using assms by (metis length_0_conv length_sort)
  then obtain h t where ht: "sort_key f xs = h # t" by (cases "sort_key f xs") auto
  have "filter (\<lambda>y. f y = f h) (sort_key f xs) = filter (\<lambda>y. f y = f h) xs"
    by (rule sort_key_stable)
  then have "h # filter (\<lambda>y. f y = f h) t = filter (\<lambda>y. f y = f h) xs"
    using ht by simp
  then have "hd (filter (\<lambda>y. f y = f h) xs) = h" by (metis list.sel(1))
  then show ?thesis using ht by simp
qed

lemma fold_max_ge: "(b::nat) \<le> fold max xs b"
  by (induction xs arbitrary: b) (auto intro: order_trans[OF max.cobounded2])

lemma fold_max_upper: "x \<in> set xs \<Longrightarrow> (x::nat) \<le> fold max xs b"
proof (induction xs arbitrary: b)
  case Nil then show ?case by simp
next
  case (Cons a xs)
  show ?case
  proof (cases "x = a")
    case True
    have "max a b \<le> fold max xs (max a b)" by (rule fold_max_ge)
    then show ?thesis using True by simp
  next
    case False
    then show ?thesis using Cons by simp
  qed
qed

lemma fold_max_mem: "fold max xs (b::nat) = b \<or> fold max xs b \<in> set xs"
proof (induction xs arbitrary: b)
  case Nil then show ?case by simp
next
  case (Cons a xs)
  have "fold max xs (max a b) = max a b \<or> fold max xs (max a b) \<in> set xs" by (rule Cons.IH)
  moreover have "max a b = a \<or> max a b = b" by (simp add: max_def)
  ultimately show ?case by auto
qed

subsection \<open>The pool that wins\<close>

lemma scores_eq: "scores text = map (\<lambda>p. (p, score p text)) pool_names"
  by (simp add: scores_def score_def pool_names_def destination_types_def)

lemma pool_names_eq:
  "pool_names = [''nature'', ''water'', ''urban'', ''heritage'', ''desert'', ''scenic'']"
  by (simp add: pool_names_def destination_types_def)

lemma matched_type_highest: "matched_type text = highest_scoring text"
proof -
  let ?f = "\<lambda>x::string \<times> nat. - int (snd x)"
  let ?xs = "scores text"
  let ?h = "hd (sort_key ?f ?xs)"
  let ?best = "fold max (map (\<lambda>p. score p text) pool_names) 0"
  have ne: "?xs \<noteq> []" by (simp add: scores_eq pool_names_eq)
  have hin: "?h \<in> set ?xs" using hd_sort_key_min(1)[OF ne] .
  have hmin: "\<forall>y\<in>set ?xs. ?f ?h \<le> ?f y" using hd_sort_key_min(2)[OF ne] .
  have snd_in: "snd ?h \<in> set (map (\<lambda>p. score p text) pool_names)"
    using hin by (auto simp: scores_eq)
  have le_best: "snd ?h \<le> ?best" using fold_max_upper[OF snd_in] .
  have best_le: "?best \<le> snd ?h"
  proof -
    have "?best = 0 \<or> ?best \<in> set (map (\<lambda>p. score p text) pool_names)" by (rule fold_max_mem)
    then show ?thesis
    proof
      assume "?best = 0" then show ?thesis by simp
    next
      assume "?best \<in> set (map (\<lambda>p. score p text) pool_names)"
      then obtain p where p: "p \<in> set pool_names" "?best = score p text" by auto
      then have "(p, score p text) \<in> set ?xs" by (auto simp: scores_eq)
      then have "?f ?h \<le> ?f (p, score p text)" using hmin by blast
      then show ?thesis using p by simp
    qed
  qed
  have best: "snd ?h = ?best" using le_best best_le by simp
  have first: "?h = hd (filter (\<lambda>y. ?f y = ?f ?h) ?xs)" using hd_sort_key_first[OF ne] .
  have feq: "filter (\<lambda>y. ?f y = ?f ?h) ?xs
             = map (\<lambda>p. (p, score p text)) (filter (\<lambda>p. score p text = ?best) pool_names)"
    using best by (simp add: scores_eq filter_map comp_def)
  have fne: "filter (\<lambda>p. score p text = ?best) pool_names \<noteq> []"
  proof
    assume "filter (\<lambda>p. score p text = ?best) pool_names = []"
    then have "filter (\<lambda>y. ?f y = ?f ?h) ?xs = []" using feq by simp
    moreover have "?h \<in> set (filter (\<lambda>y. ?f y = ?f ?h) ?xs)" using hin by simp
    ultimately show False by simp
  qed
  have "fst ?h = hd (filter (\<lambda>p. score p text = ?best) pool_names)"
    using first feq fne by (simp add: hd_map)
  then show ?thesis
    using best by (simp add: matched_type_def sorted_types_def highest_scoring_def Let_def)
qed

subsection \<open>The emitting loops\<close>

lemma url_fallback_image: "url (fallback_image u) = u"
  by (simp add: fallback_image_def)

lemma primary_urls_nonempty: "urls_get k (urls_get ''scenic'' []) \<noteq> []"
  by (simp add: urls_get_def all_fallback_urls_def)

lemma add_urls_Inl_nonempty: "add_urls count us st = Inl res \<Longrightarrow> res \<noteq> []"
proof (induction us arbitrary: st)
  case Nil then show ?case by simp
next
  case (Cons u us)
  obtain r used where st: "st = (r, used)" by (cases st)
  show ?case using Cons.prems Cons.IH unfolding st
    by (auto simp: Let_def split: if_splits)
qed

lemma add_pools_Inl_nonempty: "add_pools count m ps st = Inl res \<Longrightarrow> res \<noteq> []"
proof (induction ps arbitrary: st)
  case Nil then show ?case by simp
next
  case (Cons p ps)
  obtain d sc where p: "p = (d, sc)" by (cases p)
  show ?case using Cons.prems Cons.IH unfolding p
    by (auto split: if_splits sum.splits dest: add_urls_Inl_nonempty)
qed

lemma add_urls_Inr_below:
  "add_urls count us (r, used) = Inr (r', used') \<Longrightarrow> below count r \<Longrightarrow> below count r'"
proof (induction us arbitrary: r used)
  case Nil then show ?case by simp
next
  case (Cons u us)
  show ?case
  proof (cases "u \<in> used")
    case True
    then show ?thesis using Cons by simp
  next
    case False
    let ?r = "r @ [fallback_image u]"
    from Cons.prems(1) False have lt: "\<not> count \<le> int (length ?r)"
      by (auto simp: Let_def split: if_splits)
    from Cons.prems(1) False lt have "add_urls count us (?r, insert u used) = Inr (r', used')"
      by (simp add: Let_def)
    moreover have "below count ?r" using lt by (simp add: below_def)
    ultimately show ?thesis by (rule Cons.IH)
  qed
qed

lemma add_pools_Inr_below:
  "add_pools count m ps (r, used) = Inr (r', used') \<Longrightarrow> below count r \<Longrightarrow> below count r'"
proof (induction ps arbitrary: r used)
  case Nil then show ?case by simp
next
  case (Cons p ps)
  obtain d sc where p: "p = (d, sc)" by (cases p)
  show ?case
  proof (cases "d = m")
    case True
    then show ?thesis using Cons unfolding p by simp
  next
    case False
    from Cons.prems(1) False obtain r1 u1 where
      a: "add_urls count (urls_get d []) (r, used) = Inr (r1, u1)" and
      b: "add_pools count m ps (r1, u1) = Inr (r', used')"
      unfolding p by (auto split: sum.splits)
    have "below count r1" using add_urls_Inr_below[OF a Cons.prems(2)] .
    then show ?thesis using Cons.IH[OF b] by simp
  qed
qed

text \<open>Every emitted list extends the list the loop started from.\<close>

lemma add_urls_extends:
  "add_urls count us (r, used) = Inl res \<Longrightarrow> \<exists>e. res = r @ e"
  "add_urls count us (r, used) = Inr (r', used') \<Longrightarrow> \<exists>e. r' = r @ e"
proof (induction us arbitrary: r used)
  case Nil
  { case 1 then show ?case by simp }
  { case 2 then show ?case by simp }
next
  case (Cons u us)
  { case 1
    show ?case
    proof (cases "u \<in> used")
      case True
      then show ?thesis using 1 Cons.IH(1) by simp
    next
      case False
      show ?thesis
      proof (cases "count \<le> int (length (r @ [fallback_image u]))")
        case True
        then have "res = r @ [fallback_image u]" using 1 False by (simp add: Let_def)
        then show ?thesis by blast
      next
        case le: False
        from 1 False le
        have "add_urls count us (r @ [fallback_image u], insert u used) = Inl res"
          by (simp add: Let_def)
        from Cons.IH(1)[OF this] show ?thesis by auto
      qed
    qed }
  { case 2
    show ?case
    proof (cases "u \<in> used")
      case True
      then show ?thesis using 2 Cons.IH(2) by simp
    next
      case False
      from 2 False have le: "\<not> count \<le> int (length (r @ [fallback_image u]))"
        by (auto simp: Let_def split: if_splits)
      from 2 False le
      have "add_urls count us (r @ [fallback_image u], insert u used) = Inr (r', used')"
        by (simp add: Let_def)
      from Cons.IH(2)[OF this] show ?thesis by auto
    qed }
qed

lemma add_pools_extends:
  "add_pools count m ps (r, used) = Inl res \<Longrightarrow> \<exists>e. res = r @ e"
  "add_pools count m ps (r, used) = Inr (r', used') \<Longrightarrow> \<exists>e. r' = r @ e"
proof (induction ps arbitrary: r used)
  case Nil
  { case 1 then show ?case by simp }
  { case 2 then show ?case by simp }
next
  case (Cons p ps)
  obtain d sc where p: "p = (d, sc)" by (cases p)
  { case 1
    show ?case
    proof (cases "d = m")
      case True
      then show ?thesis using 1 Cons.IH(1) unfolding p by simp
    next
      case False
      show ?thesis
      proof (cases "add_urls count (urls_get d []) (r, used)")
        case (Inl res1)
        then have "res1 = res" using 1 False unfolding p by simp
        then show ?thesis using add_urls_extends(1)[OF Inl] by simp
      next
        case (Inr st1)
        obtain r1 u1 where st1: "st1 = (r1, u1)" by (cases st1)
        from add_urls_extends(2)[OF Inr[unfolded st1]] obtain e1 where e1: "r1 = r @ e1" ..
        from 1 False Inr st1 have "add_pools count m ps (r1, u1) = Inl res"
          unfolding p by simp
        from Cons.IH(1)[OF this] e1 show ?thesis by auto
      qed
    qed }
  { case 2
    show ?case
    proof (cases "d = m")
      case True
      then show ?thesis using 2 Cons.IH(2) unfolding p by simp
    next
      case False
      from 2 False obtain r1 u1 where
        a: "add_urls count (urls_get d []) (r, used) = Inr (r1, u1)" and
        b: "add_pools count m ps (r1, u1) = Inr (r', used')"
        unfolding p by (auto split: sum.splits)
      from add_urls_extends(2)[OF a] obtain e1 where e1: "r1 = r @ e1" ..
      from Cons.IH(2)[OF b] e1 show ?thesis by auto
    qed }
qed

text \<open>No URL is emitted twice.\<close>

lemma add_urls_used_ok:
  assumes "used_ok (r, used)"
  shows "add_urls count us (r, used) = Inl res \<Longrightarrow> distinct (map url res)"
    and "add_urls count us (r, used) = Inr st' \<Longrightarrow> used_ok st'"
  using assms
proof (induction us arbitrary: r used)
  case Nil
  { case 1 then show ?case by simp }
  { case 2 then show ?case by simp }
next
  case (Cons u us)
  have step: "\<And>r used. used_ok (r, used) \<Longrightarrow> u \<notin> used
                 \<Longrightarrow> used_ok (r @ [fallback_image u], insert u used)"
    by (auto simp: used_ok_def url_fallback_image)
  { case 1
    show ?case
    proof (cases "u \<in> used")
      case True
      then show ?thesis using 1 Cons.IH(1) by simp
    next
      case False
      note ok = step[OF 1(2) False]
      show ?thesis
      proof (cases "count \<le> int (length (r @ [fallback_image u]))")
        case True
        then have "res = r @ [fallback_image u]" using 1 False by (simp add: Let_def)
        then show ?thesis using ok by (simp add: used_ok_def)
      next
        case le: False
        from 1 False le
        have "add_urls count us (r @ [fallback_image u], insert u used) = Inl res"
          by (simp add: Let_def)
        from Cons.IH(1)[OF this ok] show ?thesis .
      qed
    qed }
  { case 2
    show ?case
    proof (cases "u \<in> used")
      case True
      then show ?thesis using 2 Cons.IH(2) by simp
    next
      case False
      note ok = step[OF 2(2) False]
      from 2 False have le: "\<not> count \<le> int (length (r @ [fallback_image u]))"
        by (auto simp: Let_def split: if_splits)
      from 2 False le
      have "add_urls count us (r @ [fallback_image u], insert u used) = Inr st'"
        by (simp add: Let_def)
      from Cons.IH(2)[OF this ok] show ?thesis .
    qed }
qed

lemma add_pools_used_ok:
  assumes "used_ok st"
  shows "add_pools count m ps st = Inl res \<Longrightarrow> distinct (map url res)"
    and "add_pools count m ps st = Inr st' \<Longrightarrow> used_ok st'"
  using assms
proof (induction ps arbitrary: st)
  case Nil
  { case 1 then show ?case by simp }
  { case 2 then show ?case by simp }
next
  case (Cons p ps)
  obtain d sc where p: "p = (d, sc)" by (cases p)
  { case 1
    obtain r used where st: "st = (r, used)" by (cases st)
    show ?case
    proof (cases "d = m")
      case True
      then show ?thesis using 1 Cons.IH(1) unfolding p by simp
    next
      case False
      show ?thesis
      proof (cases "add_urls count (urls_get d []) (r, used)")
        case (Inl res1)
        then have "res1 = res" using 1 False unfolding p st by simp
        then show ?thesis using add_urls_used_ok(1)[OF 1(2)[unfolded st] Inl] by simp
      next
        case (Inr st1)
        have ok1: "used_ok st1" using add_urls_used_ok(2)[OF 1(2)[unfolded st] Inr] .
        from 1 False Inr have "add_pools count m ps st1 = Inl res"
          unfolding p st by simp
        from Cons.IH(1)[OF this ok1] show ?thesis .
      qed
    qed }
  { case 2
    obtain r used where st: "st = (r, used)" by (cases st)
    show ?case
    proof (cases "d = m")
      case True
      then show ?thesis using 2 Cons.IH(2) unfolding p by simp
    next
      case False
      from 2 False obtain st1 where
        a: "add_urls count (urls_get d []) (r, used) = Inr st1" and
        b: "add_pools count m ps st1 = Inr st'"
        unfolding p st by (auto split: sum.splits)
      have ok1: "used_ok st1" using add_urls_used_ok(2)[OF 2(2)[unfolded st] a] .
      from Cons.IH(2)[OF b ok1] show ?thesis .
    qed }
qed

subsection \<open>The whole function\<close>

lemma add_urls_first:
  "count \<le> 1 \<Longrightarrow> add_urls count (u # us) ([], {}) = Inl [fallback_image u]"
  by (simp add: Let_def)

lemma used_ok_start: "used_ok ([], {})"
  by (simp add: used_ok_def)

lemma get_fallback_images_nonempty_aux: "get_fallback_images query count \<noteq> []"
proof -
  let ?m = "matched_type (lower query)"
  let ?p = "urls_get ?m (urls_get ''scenic'' [])"
  show ?thesis
  proof (cases "add_urls count ?p ([], {})")
    case (Inl res)
    then show ?thesis using add_urls_Inl_nonempty[OF Inl]
      by (simp add: get_fallback_images_def Let_def)
  next
    case (Inr st)
    obtain r1 u1 where st: "st = (r1, u1)" by (cases st)
    have b1: "below count r1"
      using add_urls_Inr_below[OF Inr[unfolded st]] by (simp add: below_def)
    show ?thesis
    proof (cases "add_pools count ?m (sorted_types (lower query)) (r1, u1)")
      case (Inl res)
      then show ?thesis using add_pools_Inl_nonempty[OF Inl] Inr st
        by (simp add: get_fallback_images_def Let_def)
    next
      case (Inr st2)
      obtain r2 u2 where st2: "st2 = (r2, u2)" by (cases st2)
      have "below count r2" using add_pools_Inr_below[OF Inr[unfolded st2] b1] .
      then have "r2 \<noteq> [] \<Longrightarrow> py_prefix r2 count = r2"
        by (auto simp: below_def py_prefix_def)
      then show ?thesis using Inr st2 \<open>add_urls count ?p ([], {}) = Inr st\<close> st
        by (auto simp: get_fallback_images_def Let_def)
    qed
  qed
qed

lemma get_fallback_images_nonpositive:
  assumes "count \<le> 0"
  shows "get_fallback_images query count =
         [fallback_image (hd (urls_get (matched_type (lower query)) (urls_get ''scenic'' [])))]"
proof -
  let ?p = "urls_get (matched_type (lower query)) (urls_get ''scenic'' [])"
  obtain u us where p: "?p = u # us" using primary_urls_nonempty by (cases ?p) auto
  have "add_urls count ?p ([], {}) = Inl [fallback_image u]"
    unfolding p using assms by (intro add_urls_first) simp
  then show ?thesis using p by (simp add: get_fallback_images_def Let_def)
qed

lemma get_fallback_images_distinct: "distinct (map url (get_fallback_images query count))"
proof -
  let ?m = "matched_type (lower query)"
  let ?p = "urls_get ?m (urls_get ''scenic'' [])"
  show ?thesis
  proof (cases "add_urls count ?p ([], {})")
    case (Inl res)
    then show ?thesis using add_urls_used_ok(1)[OF used_ok_start Inl]
      by (simp add: get_fallback_images_def Let_def)
  next
    case (Inr st)
    have ok1: "used_ok st" using add_urls_used_ok(2)[OF used_ok_start Inr] .
    show ?thesis
    proof (cases "add_pools count ?m (sorted_types (lower query)) st")
      case (Inl res)
      then show ?thesis using add_pools_used_ok(1)[OF ok1 Inl] Inr
        by (simp add: get_fallback_images_def Let_def)
    next
      case (Inr st2)
      obtain r2 u2 where st2: "st2 = (r2, u2)" by (cases st2)
      have "used_ok (r2, u2)" using add_pools_used_ok(2)[OF ok1 Inr] st2 by simp
      then have "distinct (map url r2)" by (simp add: used_ok_def)
      then have "distinct (map url (py_prefix r2 count))"
        by (simp add: py_prefix_def take_map[symmetric])
      then show ?thesis using Inr st2 \<open>add_urls count ?p ([], {}) = Inr st\<close>
        by (simp add: get_fallback_images_def Let_def url_fallback_image)
    qed
  qed
qed

lemma get_fallback_images_hd:
  "hd (get_fallback_images query count) =
   fallback_image (hd (urls_get (matched_type (lower query)) (urls_get ''scenic'' [])))"
proof (cases "count \<le> 1")
  case True
  let ?p = "urls_get (matched_type (lower query)) (urls_get ''scenic'' [])"
  obtain u us where p: "?p = u # us" using primary_urls_nonempty by (cases ?p) auto
  have "add_urls count ?p ([], {}) = Inl [fallback_image u]"
    unfolding p using True by (rule add_urls_first)
  then show ?thesis using p by (simp add: get_fallback_images_def Let_def)
next
  case False
  let ?m = "matched_type (lower query)"
  let ?p = "urls_get ?m (urls_get ''scenic'' [])"
  let ?f = "fallback_image (hd ?p)"
  obtain u us where p: "?p = u # us" using primary_urls_nonempty by (cases ?p) auto
  have unfold1: "add_urls count ?p ([], {}) = add_urls count us ([fallback_image u], {u})"
    unfolding p using False by (simp add: Let_def)
  have f: "?f = fallback_image u" using p by simp
  show ?thesis
  proof (cases "add_urls count us ([fallback_image u], {u})")
    case (Inl res)
    from add_urls_extends(1)[OF Inl] obtain e where "res = [fallback_image u] @ e" ..
    then show ?thesis using Inl unfold1 f by (simp add: get_fallback_images_def Let_def)
  next
    case (Inr st)
    obtain r1 u1 where st: "st = (r1, u1)" by (cases st)
    from add_urls_extends(2)[OF Inr[unfolded st]] obtain e1
      where e1: "r1 = [fallback_image u] @ e1" ..
    have b1: "below count r1"
      using add_urls_Inr_below[OF Inr[unfolded st]] False by (simp add: below_def)
    show ?thesis
    proof (cases "add_pools count ?m (sorted_types (lower query)) (r1, u1)")
      case (Inl res)
      from add_pools_extends(1)[OF Inl] e1 obtain e
        where "res = [fallback_image u] @ e" by auto
      then show ?thesis using Inl Inr st unfold1 f
        by (simp add: get_fallback_images_def Let_def)
    next
      case (Inr st2)
      obtain r2 u2 where st2: "st2 = (r2, u2)" by (cases st2)
      from add_pools_extends(2)[OF Inr[unfolded st2]] e1 obtain e
        where e: "r2 = [fallback_image u] @ e" by auto
      have "below count r2" using add_pools_Inr_below[OF Inr[unfolded st2] b1] .
      then have "py_prefix r2 count = r2" using e
        by (auto simp: below_def py_prefix_def)
      then show ?thesis using Inr st2 \<open>add_urls count us ([fallback_image u], {u}) = Inr st\<close>
          st unfold1 f e
        by (simp add: get_fallback_images_def Let_def)
    qed
  qed
qed

lemma lower_from_ascii:
  "\<forall>c \<in> set s. c < 128 \<Longrightarrow>
     lower_from before s = map (\<lambda>c. if 65 \<le> c \<and> c \<le> 90 then c + 32 else c) s"
  by (induction s arbitrary: before) (auto simp: lower_code_def)

lemma lower_ascii:
  "\<forall>c \<in> set s. c < 128 \<Longrightarrow>
     lower s = map (\<lambda>c. if 65 \<le> c \<and> c \<le> 90 then c + 32 else c) s"
  by (simp add: lower_def lower_from_ascii)

text \<open>
  C6. get_fallback_images lower-cases the query (the letters A to Z of an ASCII query
  become a to z, and Unicode letters follow \<^verbatim>\<open>str.lower\<close>: the Kelvin sign becomes k) and
  scores the six pools nature, water, urban, heritage, desert, scenic (in this declaration
  order) by the number of the pool's keywords that occur in the lower-cased query. The
  pool it selects, and emits from first, is the highest-scoring one, the earliest declared
  among pools of equal score, and scenic when every pool scores 0. For the query
  "desert canyon trip" the desert pool scores 2, scenic scores 0, and desert is selected;
  it is selected for "DESERT Canyon TRIP" too, which has no keyword in it before it is
  lower-cased.
\<close>

theorem fallback_pool_selection:
  "pool_names = [''nature'', ''water'', ''urban'', ''heritage'', ''desert'', ''scenic'']
   \<and> matched_type (lower query) = highest_scoring (lower query)
   \<and> hd (get_fallback_images query count) =
       fallback_image (hd (urls_get (highest_scoring (lower query)) (urls_get ''scenic'' [])))
   \<and> score ''desert'' (lower (str ''desert canyon trip'')) = 2
   \<and> score ''scenic'' (lower (str ''desert canyon trip'')) = 0
   \<and> matched_type (lower (str ''desert canyon trip'')) = ''desert''
   \<and> ((\<forall>c \<in> set query. c < 128) \<longrightarrow>
        lower query = map (\<lambda>c. if 65 \<le> c \<and> c \<le> 90 then c + 32 else c) query)
   \<and> lower (str ''DESERT Canyon TRIP'') = str ''desert canyon trip''
   \<and> highest_scoring (str ''DESERT Canyon TRIP'') = ''scenic''
   \<and> hd (get_fallback_images (str ''DESERT Canyon TRIP'') count) = fallback_image
         ''https://images.unsplash.com/photo-1509316785289-025f5b846b35?auto=format&q=80&w=1200''
   \<and> lower [76, 65, 8490, 69] = str ''lake''
   \<and> hd (get_fallback_images [76, 65, 8490, 69] count) = fallback_image
         ''https://images.unsplash.com/photo-1507525428034-b723cf961d3e?auto=format&q=80&w=1200''
   \<and> hd (get_fallback_images (str ''Beach and Hill'') count) = fallback_image
         ''https://images.unsplash.com/photo-1506905925346-21bda4d32df4?auto=format&q=80&w=1200''
   \<and> hd (get_fallback_images (str ''Jaipur'') count) = fallback_image
         ''https://images.unsplash.com/photo-1469854523086-cc02fe5d8800?auto=format&q=80&w=1200''"
proof -
  have a: "score ''desert'' (lower (str ''desert canyon trip'')) = 2" by code_simp
  have b: "score ''scenic'' (lower (str ''desert canyon trip'')) = 0" by code_simp
  have c: "matched_type (lower (str ''desert canyon trip'')) = ''desert''" by code_simp
  have d: "(\<forall>c \<in> set query. c < 128) \<longrightarrow>
        lower query = map (\<lambda>c. if 65 \<le> c \<and> c \<le> 90 then c + 32 else c) query"
    using lower_ascii by blast
  have e: "lower (str ''DESERT Canyon TRIP'') = str ''desert canyon trip''" by code_simp
  have f: "highest_scoring (str ''DESERT Canyon TRIP'') = ''scenic''" by code_simp
  have g: "hd (urls_get (matched_type (lower (str ''DESERT Canyon TRIP''))) (urls_get ''scenic'' []))
           = ''https://images.unsplash.com/photo-1509316785289-025f5b846b35?auto=format&q=80&w=1200''"
    by code_simp
  have h: "lower [76, 65, 8490, 69] = str ''lake''" by code_simp
  have i: "hd (urls_get (matched_type (lower [76, 65, 8490, 69])) (urls_get ''scenic'' []))
           = ''https://images.unsplash.com/photo-1507525428034-b723cf961d3e?auto=format&q=80&w=1200''"
    by code_simp
  have j: "hd (urls_get (matched_type (lower (str ''Beach and Hill''))) (urls_get ''scenic'' []))
           = ''https://images.unsplash.com/photo-1506905925346-21bda4d32df4?auto=format&q=80&w=1200''"
    by code_simp
  have k: "hd (urls_get (matched_type (lower (str ''Jaipur''))) (urls_get ''scenic'' []))
           = ''https://images.unsplash.com/photo-1469854523086-cc02fe5d8800?auto=format&q=80&w=1200''"
    by code_simp
  have g': "hd (get_fallback_images (str ''DESERT Canyon TRIP'') count) = fallback_image
         ''https://images.unsplash.com/photo-1509316785289-025f5b846b35?auto=format&q=80&w=1200''"
    using get_fallback_images_hd[of "str ''DESERT Canyon TRIP''" count] unfolding g .
  have i': "hd (get_fallback_images [76, 65, 8490, 69] count) = fallback_image
         ''https://images.unsplash.com/photo-1507525428034-b723cf961d3e?auto=format&q=80&w=1200''"
    using get_fallback_images_hd[of "[76, 65, 8490, 69]" count] unfolding i .
  have j': "hd (get_fallback_images (str ''Beach and Hill'') count) = fallback_image
         ''https://images.unsplash.com/photo-1506905925346-21bda4d32df4?auto=format&q=80&w=1200''"
    using get_fallback_images_hd[of "str ''Beach and Hill''" count] unfolding j .
  have k': "hd (get_fallback_images (str ''Jaipur'') count) = fallback_image
         ''https://images.unsplash.com/photo-1469854523086-cc02fe5d8800?auto=format&q=80&w=1200''"
    using get_fallback_images_hd[of "str ''Jaipur''" count] unfolding k .
  have m: "matched_type (lower query) = highest_scoring (lower query)"
    by (rule matched_type_highest)
  have n: "hd (get_fallback_images query count) =
       fallback_image (hd (urls_get (highest_scoring (lower query)) (urls_get ''scenic'' [])))"
    using get_fallback_images_hd[of query count] unfolding m .
  show ?thesis
    using pool_names_eq m n a b c d e f g' h i' j' k' by blast
qed

theorem fallback_pool_selection_witness:
  "list_all (\<lambda>c. c < 128) (str ''Hill BEACH'')
   \<and> lower (str ''Hill BEACH'') = str ''hill beach''
   \<and> highest_scoring (lower (str ''Hill BEACH'')) = ''nature''
   \<and> hd (get_fallback_images (str ''Hill BEACH'') 3) = fallback_image
         ''https://images.unsplash.com/photo-1506905925346-21bda4d32df4?auto=format&q=80&w=1200''"
proof -
  have a: "\<forall>c \<in> set (str ''Hill BEACH''). c < 128" by (simp add: str_def)
  have b: "map (\<lambda>c. if 65 \<le> c \<and> c \<le> 90 then c + 32 else c) (str ''Hill BEACH'')
           = str ''hill beach''"
    by (simp add: str_def)
  have c: "highest_scoring (str ''hill beach'') = ''nature''" by code_simp
  have d: "hd (urls_get ''nature'' (urls_get ''scenic'' [])) = ''https://images.unsplash.com/photo-1506905925346-21bda4d32df4?auto=format&q=80&w=1200''"
    by code_simp
  have l: "lower (str ''Hill BEACH'') = str ''hill beach''"
    using fallback_pool_selection [of "str ''Hill BEACH''" 3] a b by simp
  have h: "hd (get_fallback_images (str ''Hill BEACH'') 3) =
       fallback_image (hd (urls_get (highest_scoring (lower (str ''Hill BEACH'')))
                             (urls_get ''scenic'' [])))"
    using fallback_pool_selection [of "str ''Hill BEACH''" 3] by blast
  have a': "list_all (\<lambda>c. c < 128) (str ''Hill BEACH'')" using a by (simp add: list_all_iff)
  show ?thesis using a' l h unfolding l c d by simp
qed

text \<open>
  C10. get_fallback_images returns a non-empty list for every query and every integer
  count. When count is 0 or negative it returns exactly one image, the first URL of the
  winning pool: the length check comes only after the first URL has been appended.
\<close>

theorem get_fallback_images_nonempty:
  "get_fallback_images query count \<noteq> [] \<and>
   (count \<le> 0 \<longrightarrow>
      get_fallback_images query count =
        [fallback_image (hd (urls_get (matched_type (lower query)) (urls_get ''scenic'' [])))])"
  using get_fallback_images_nonempty_aux get_fallback_images_nonpositive by blast

theorem get_fallback_images_nonempty_witness:
  "(- 3 :: int) \<le> 0 \<and>
   get_fallback_images (str ''Beach'') (- 3) =
     [fallback_image
        ''https://images.unsplash.com/photo-1507525428034-b723cf961d3e?auto=format&q=80&w=1200'']"
proof -
  have m: "hd (urls_get (matched_type (lower (str ''Beach''))) (urls_get ''scenic'' [])) =
        ''https://images.unsplash.com/photo-1507525428034-b723cf961d3e?auto=format&q=80&w=1200''"
    by code_simp
  show ?thesis
    using get_fallback_images_nonempty [of "str ''Beach''" "- 3"] unfolding m by simp
qed

section \<open>URL normalisation\<close>

lemma dict_set_map_of: "map_of (dict_set d k v) = (map_of d)(k \<mapsto> v)"
  by (induction d) (auto simp: fun_eq_iff)

lemma dict_set_map_fst:
  "map fst (dict_set d k v) = (if k \<in> fst ` set d then map fst d else map fst d @ [k])"
  by (induction d) (force simp: image_iff)+

lemma dict_set_keys: "fst ` set (dict_set d k v) = insert k (fst ` set d)"
proof -
  have "set (map fst (dict_set d k v)) = insert k (set (map fst d))"
    unfolding dict_set_map_fst by auto
  then show ?thesis by simp
qed

lemma dict_set_distinct: "distinct (map fst d) \<Longrightarrow> distinct (map fst (dict_set d k v))"
proof (induction d)
  case Nil then show ?case by simp
next
  case (Cons p d)
  obtain k' v' where p: "p = (k', v')" by (cases p)
  have "k' \<noteq> k \<Longrightarrow> k' \<notin> fst ` set (dict_set d k v)"
    using Cons.prems unfolding p dict_set_keys by simp
  moreover have "distinct (map fst d)" using Cons.prems by simp
  ultimately show ?case using Cons.IH Cons.prems unfolding p by auto
qed

lemma dict_set_new: "k \<notin> fst ` set d \<Longrightarrow> dict_set d k v = d @ [(k, v)]"
  by (induction d) (auto simp: image_iff)

lemma fold_dict_map_of:
  "map_of (fold (\<lambda>(k, v) d. dict_set d k v) ps d) = map_of d ++ map_of (rev ps)"
proof (induction ps arbitrary: d)
  case Nil then show ?case by simp
next
  case (Cons p ps)
  obtain k v where p: "p = (k, v)" by (cases p)
  have "map_of (fold (\<lambda>(k, v) d. dict_set d k v) (p # ps) d)
        = map_of (dict_set d k v) ++ map_of (rev ps)"
    unfolding p using Cons.IH[of "dict_set d k v"] by simp
  also have "\<dots> = map_of d ++ map_of (rev (p # ps))"
    unfolding p by (auto simp: dict_set_map_of fun_eq_iff map_add_def split: option.splits)
  finally show ?case .
qed

lemma fold_dict_keys:
  "fst ` set (fold (\<lambda>(k, v) d. dict_set d k v) ps d) = fst ` set d \<union> fst ` set ps"
proof (induction ps arbitrary: d)
  case Nil then show ?case by simp
next
  case (Cons p ps)
  obtain k v where p: "p = (k, v)" by (cases p)
  have "fst ` set (fold (\<lambda>(k, v) d. dict_set d k v) ps (dict_set d k v))
        = insert k (fst ` set d) \<union> fst ` set ps"
    using Cons.IH[of "dict_set d k v"] unfolding dict_set_keys .
  then show ?case unfolding p by simp
qed

lemma fold_dict_distinct:
  "distinct (map fst d) \<Longrightarrow> distinct (map fst (fold (\<lambda>(k, v) d. dict_set d k v) ps d))"
proof (induction ps arbitrary: d)
  case Nil then show ?case by simp
next
  case (Cons p ps)
  obtain k v where p: "p = (k, v)" by (cases p)
  have "distinct (map fst (dict_set d k v))" using Cons.prems by (rule dict_set_distinct)
  then show ?case unfolding p using Cons.IH[of "dict_set d k v"] by simp
qed

lemma fold_dict_new:
  "distinct (map fst ps) \<Longrightarrow> fst ` set ps \<inter> fst ` set d = {}
   \<Longrightarrow> fold (\<lambda>(k, v) d. dict_set d k v) ps d = d @ ps"
proof (induction ps arbitrary: d)
  case Nil then show ?case by simp
next
  case (Cons p ps)
  obtain k v where p: "p = (k, v)" by (cases p)
  have knew: "k \<notin> fst ` set d" using Cons.prems(2) unfolding p by auto
  have d': "dict_set d k v = d @ [(k, v)]" using knew by (rule dict_set_new)
  have "distinct (map fst ps)" using Cons.prems(1) by simp
  moreover have "fst ` set ps \<inter> fst ` set (d @ [(k, v)]) = {}"
    using Cons.prems unfolding p by (auto simp: image_iff)
  ultimately have "fold (\<lambda>(k, v) d. dict_set d k v) ps (d @ [(k, v)]) = (d @ [(k, v)]) @ ps"
    by (rule Cons.IH)
  then show ?case unfolding p using d' by simp
qed

lemma param_dict_map_of: "map_of (param_dict ps) = map_of (rev ps)"
  by (simp add: param_dict_def fold_dict_map_of)

lemma param_dict_keys: "fst ` set (param_dict ps) = fst ` set ps"
  by (simp add: param_dict_def fold_dict_keys)

lemma param_dict_distinct: "distinct (map fst (param_dict ps))"
  by (simp add: param_dict_def fold_dict_distinct)

lemma param_dict_id: "distinct (map fst ps) \<Longrightarrow> param_dict ps = ps"
  using fold_dict_new[of ps "[]"] by (simp add: param_dict_def)

lemma param_dict_subset: "set (param_dict ps) \<subseteq> set ps"
proof
  fix kv assume a: "kv \<in> set (param_dict ps)"
  obtain k v where kv: "kv = (k, v)" by (cases kv)
  have "map_of (param_dict ps) k = Some v"
    using a param_dict_distinct[of ps] unfolding kv by simp
  then have "map_of (rev ps) k = Some v" by (simp add: param_dict_map_of)
  then have "(k, v) \<in> set (rev ps)" by (rule map_of_SomeD)
  then show "kv \<in> set ps" unfolding kv by simp
qed

lemma new_params_eq:
  "new_params ps = param_dict ps @ filter (\<lambda>kv. fst kv \<notin> fst ` set ps) default_params"
proof -
  note keys = param_dict_keys[of ps]
  show ?thesis
    using keys
    by (simp add: new_params_def has_key_def default_params_def Let_def dict_set_new)
qed

lemma join_nonempty: "ws \<noteq> [] \<Longrightarrow> hd ws \<noteq> [] \<Longrightarrow> join sep ws \<noteq> []"
  by (induction sep ws rule: join.induct) auto

lemma urlencode_nonempty: "ps \<noteq> [] \<Longrightarrow> urlencode ps \<noteq> []"
proof -
  assume ne: "ps \<noteq> []"
  let ?ws = "map (\<lambda>(k, v). quote_plus k @ ''='' @ quote_plus v) ps"
  have "?ws \<noteq> []" using ne by simp
  moreover have "hd ?ws \<noteq> []" using ne by (cases ps) (auto simp: case_prod_beta)
  ultimately show ?thesis unfolding urlencode_def by (rule join_nonempty)
qed

lemma new_params_nonempty: "new_params ps \<noteq> []"
proof (cases "''auto'' \<in> fst ` set ps")
  case True
  then have "''auto'' \<in> fst ` set (param_dict ps)" by (simp add: param_dict_keys)
  then have "param_dict ps \<noteq> []" by auto
  then show ?thesis by (simp add: new_params_eq)
next
  case False
  then show ?thesis by (simp add: new_params_eq default_params_def)
qed

lemma optimized_url_shape:
  "optimized_url parsed =
     url_base parsed @ ''?'' @ urlencode (new_params (u_query parsed))
       @ (if u_fragment parsed = [] then [] else ''#'' @ u_fragment parsed)"
proof -
  have "urlencode (new_params (u_query parsed)) \<noteq> []"
    using new_params_nonempty by (rule urlencode_nonempty)
  then show ?thesis
    by (simp add: optimized_url_def url_base_def urlunparse_def Let_def)
qed

text \<open>
  C7, as the code has it. The parameters are the (key, value) pairs that \<^verbatim>\<open>parse_qsl\<close>
  decodes from the original query string. The defaults auto=format, q=80 and w=1200 are
  added, in this order after the existing keys, each exactly when its key is not among the
  decoded keys, and nothing else is added. Every decoded key is kept, once, with the
  decoded value of its last occurrence; when no key is repeated the decoded pairs are all
  kept unchanged and in their order. The query string of the URL an accepted candidate
  gets is the \<^verbatim>\<open>urlencode\<close> of these pairs, each written as the quoted key, =, and the
  quoted value, joined by &: the parameters are encoded anew, not copied as text.
\<close>

theorem url_normalization_params:
  "(\<forall>kv \<in> set default_params. fst kv \<notin> fst ` set ps \<longrightarrow> kv \<in> set (new_params ps))
   \<and> set (new_params ps) \<subseteq> set ps \<union> {kv \<in> set default_params. fst kv \<notin> fst ` set ps}
   \<and> (\<forall>k \<in> fst ` set ps. map_of (new_params ps) k = map_of (rev ps) k)
   \<and> distinct (map fst (new_params ps))
   \<and> (distinct (map fst ps) \<longrightarrow>
        new_params ps = ps @ filter (\<lambda>kv. fst kv \<notin> fst ` set ps) default_params)
   \<and> url (image_data p) =
        url_base (regular p) @ ''?'' @ urlencode (new_params (u_query (regular p)))
          @ (if u_fragment (regular p) = [] then [] else ''#'' @ u_fragment (regular p))
   \<and> urlencode kvs
        = join ''&'' (map (\<lambda>kv. quote_plus (fst kv) @ ''='' @ quote_plus (snd kv)) kvs)"
proof -
  let ?ds = "filter (\<lambda>kv. fst kv \<notin> fst ` set ps) default_params"
  note eq = new_params_eq[of ps]
  note keys = param_dict_keys[of ps]
  have c1: "\<forall>kv \<in> set default_params. fst kv \<notin> fst ` set ps \<longrightarrow> kv \<in> set (new_params ps)"
    unfolding eq by simp
  have c2: "set (new_params ps) \<subseteq> set ps \<union> {kv \<in> set default_params. fst kv \<notin> fst ` set ps}"
    unfolding eq using param_dict_subset[of ps] by auto
  have c3: "\<forall>k \<in> fst ` set ps. map_of (new_params ps) k = map_of (rev ps) k"
  proof
    fix k assume k: "k \<in> fst ` set ps"
    then have "k \<notin> fst ` set ?ds" by (auto simp: image_iff)
    then have "map_of ?ds k = None" by (simp add: map_of_eq_None_iff)
    then have "map_of (new_params ps) k = map_of (param_dict ps) k"
      unfolding eq by (simp add: map_add_def split: option.splits)
    then show "map_of (new_params ps) k = map_of (rev ps) k"
      by (simp add: param_dict_map_of)
  qed
  have dds: "distinct (map fst ?ds)"
    by (simp add: default_params_def)
  have disj: "fst ` set (param_dict ps) \<inter> fst ` set ?ds = {}"
    unfolding keys by (auto simp: image_iff)
  have c4: "distinct (map fst (new_params ps))"
    unfolding eq using param_dict_distinct[of ps] dds disj by simp
  have c5: "distinct (map fst ps) \<longrightarrow> new_params ps = ps @ ?ds"
    unfolding eq by (simp add: param_dict_id)
  have c6: "url (image_data p) =
        url_base (regular p) @ ''?'' @ urlencode (new_params (u_query (regular p)))
          @ (if u_fragment (regular p) = [] then [] else ''#'' @ u_fragment (regular p))"
    using optimized_url_shape[of "regular p"] by (simp add: image_data_def)
  have c7: "urlencode kvs
        = join ''&'' (map (\<lambda>kv. quote_plus (fst kv) @ ''='' @ quote_plus (snd kv)) kvs)"
    by (simp add: urlencode_def case_prod_unfold)
  show ?thesis using c1 c2 c3 c4 c5 c6 c7 by blast
qed

theorem url_normalization_params_witness:
  "distinct (map fst [(''ixid'', ''M3 w/x''), (''w'', ''1080'')])
   \<and> new_params [(''ixid'', ''M3 w/x''), (''w'', ''1080'')]
       = [(''ixid'', ''M3 w/x''), (''w'', ''1080''), (''auto'', ''format''), (''q'', ''80'')]
   \<and> (''q'', ''80'') \<in> set (new_params [(''ixid'', ''M3 w/x''), (''w'', ''1080'')])
   \<and> map_of (new_params [(''ixid'', ''M3 w/x''), (''w'', ''1080'')]) ''w'' = Some ''1080''
   \<and> url (image_data (example_photo\<lparr>regular := regular example_photo
              \<lparr>u_query := [(''ixid'', ''M3 w/x''), (''w'', ''1080'')], u_fragment := ''top''\<rparr>\<rparr>))
       = ''https://images.unsplash.com/photo-1469854523086-cc02fe5d8800''
           @ ''?ixid=M3+w%2Fx&w=1080&auto=format&q=80#top''
   \<and> urlencode [(''city'', [CHR ''Z'', CHR 0xEF, CHR 0xBF, CHR 0xBD] @ ''rich''), (''w'', ''400'')]
       = ''city=Z%EF%BF%BDrich&w=400''"
proof -
  let ?ps = "[(''ixid'', ''M3 w/x''), (''w'', ''1080'')]"
  let ?p = "example_photo\<lparr>regular := regular example_photo
              \<lparr>u_query := ?ps, u_fragment := ''top''\<rparr>\<rparr>"
  have d: "distinct (map fst ?ps)" by simp
  have f: "filter (\<lambda>kv. fst kv \<notin> fst ` set ?ps) default_params
           = [(''auto'', ''format''), (''q'', ''80'')]"
    by (simp add: default_params_def)
  have e: "new_params ?ps
           = [(''ixid'', ''M3 w/x''), (''w'', ''1080''), (''auto'', ''format''), (''q'', ''80'')]"
    using url_normalization_params [of ?ps] d f by simp
  have q: "u_query (regular ?p) = ?ps" by simp
  have u: "url (image_data ?p) =
        url_base (regular ?p) @ ''?'' @ urlencode (new_params (u_query (regular ?p)))
          @ (if u_fragment (regular ?p) = [] then [] else ''#'' @ u_fragment (regular ?p))"
    using url_normalization_params [of ?ps ?p] by blast
  have b: "url_base (regular ?p) = ''https://images.unsplash.com/photo-1469854523086-cc02fe5d8800''"
    by code_simp
  have en: "urlencode [(''ixid'', ''M3 w/x''), (''w'', ''1080''), (''auto'', ''format''), (''q'', ''80'')]
            = ''ixid=M3+w%2Fx&w=1080&auto=format&q=80''"
    by code_simp
  have fr: "u_fragment (regular ?p) = ''top''" by simp
  have u': "url (image_data ?p)
       = ''https://images.unsplash.com/photo-1469854523086-cc02fe5d8800''
           @ ''?ixid=M3+w%2Fx&w=1080&auto=format&q=80#top''"
    using u unfolding q e b en fr by simp
  have z: "urlencode [(''city'', [CHR ''Z'', CHR 0xEF, CHR 0xBF, CHR 0xBD] @ ''rich''), (''w'', ''400'')]
       = ''city=Z%EF%BF%BDrich&w=400''"
    by code_simp
  show ?thesis using d e u' z by simp
qed

text \<open>
  C7 as stated fails on a query string that repeats a key: of a=1 and a=2 only a=2 is in
  the normalised URL.
\<close>

theorem url_normalization_drops_repeated_key:
  "(''a'', ''1'') \<in> set [(''a'', ''1''), (''a'', ''2'')]
   \<and> (''a'', ''1'') \<notin> set (new_params [(''a'', ''1''), (''a'', ''2'')])
   \<and> optimized_url \<lparr>u_scheme = ''https'', u_netloc = ''images.unsplash.com'',
                      u_path = ''/photo-1'', u_params = [],
                      u_query = [(''a'', ''1''), (''a'', ''2'')], u_fragment = []\<rparr>
       = ''https://images.unsplash.com/photo-1?a=2&auto=format&q=80&w=1200''"
  by code_simp

section \<open>The accumulation loop and the padding loop\<close>

lemma py_index_mem: "py_index xs i = Inr x \<Longrightarrow> x \<in> set xs"
  by (auto simp: py_index_def Let_def split: if_splits)

lemma py_prefix_take: "\<exists>n. py_prefix xs c = take n xs"
  by (auto simp: py_prefix_def)

lemma py_prefix_distinct: "distinct (map f xs) \<Longrightarrow> distinct (map f (py_prefix xs c))"
proof -
  assume d: "distinct (map f xs)"
  obtain n where n: "py_prefix xs c = take n xs" using py_prefix_take by blast
  have "distinct (take n (map f xs))" using d by (rule distinct_take)
  then show ?thesis unfolding n by (simp add: take_map)
qed

lemma chosen_ok_step:
  assumes "chosen_ok raw chosen (acc, ids, urls)" and "p \<in> set raw"
    and "id_of p \<notin> ids" and "optimized_url (regular p) \<notin> urls"
  shows "chosen_ok raw (chosen @ [p])
           (acc @ [image_data p], insert (id_of p) ids, insert (optimized_url (regular p)) urls)"
  using assms by (auto simp: chosen_ok_def)

lemma accumulate_chosen:
  "chosen_ok raw chosen (acc, ids, urls)
   \<Longrightarrow> accumulate count raw idxs (acc, ids, urls) = Inr acc'
   \<Longrightarrow> \<exists>chosen' ids' urls'. chosen_ok raw chosen' (acc', ids', urls')"
proof (induction idxs arbitrary: chosen acc ids urls)
  case Nil
  then show ?case by auto
next
  case (Cons idx rest)
  show ?case
  proof (cases "count \<le> int (length acc)")
    case True
    then have "acc' = acc" using Cons.prems(2) by simp
    then show ?thesis using Cons.prems(1) by blast
  next
    case more: False
    from Cons.prems(2) more obtain i where i: "as_int idx = Inr i"
      by (auto split: sum.splits)
    show ?thesis
    proof (cases "i < int (length raw)")
      case False
      then have "accumulate count raw rest (acc, ids, urls) = Inr acc'"
        using Cons.prems(2) more i by simp
      then show ?thesis using Cons.IH Cons.prems(1) by blast
    next
      case True
      from Cons.prems(2) more i True obtain p where p: "py_index raw i = Inr p"
        by (auto split: sum.splits)
      have pin: "p \<in> set raw" using p by (rule py_index_mem)
      show ?thesis
      proof (cases "id_of p \<in> ids \<or> optimized_url (regular p) \<in> urls")
        case True
        then have "accumulate count raw rest (acc, ids, urls) = Inr acc'"
          using Cons.prems(2) more i \<open>i < int (length raw)\<close> p
          by (auto split: if_splits)
        then show ?thesis using Cons.IH Cons.prems(1) by blast
      next
        case False
        then have "accumulate count raw rest
                     (acc @ [image_data p], insert (id_of p) ids,
                      insert (optimized_url (regular p)) urls) = Inr acc'"
          using Cons.prems(2) more i \<open>i < int (length raw)\<close> p by simp
        moreover have "chosen_ok raw (chosen @ [p])
                     (acc @ [image_data p], insert (id_of p) ids,
                      insert (optimized_url (regular p)) urls)"
          using Cons.prems(1) pin False by (intro chosen_ok_step) auto
        ultimately show ?thesis using Cons.IH by blast
      qed
    qed
  qed
qed

lemma chosen_ok_start: "chosen_ok raw [] ([], {}, {})"
  by (simp add: chosen_ok_def)

lemma url_image_data: "url (image_data p) = optimized_url (regular p)"
  by (simp add: image_data_def)

lemma accumulate_picks:
  assumes "accumulate count raw idxs ([], {}, {}) = Inr acc"
  shows "\<exists>chosen. acc = map image_data chosen \<and> set chosen \<subseteq> set raw
           \<and> distinct (map id_of chosen)
           \<and> distinct (map (\<lambda>p. optimized_url (regular p)) chosen)"
  using accumulate_chosen[OF chosen_ok_start assms] by (auto simp: chosen_ok_def)

lemma accumulate_distinct:
  assumes "accumulate count raw idxs ([], {}, {}) = Inr acc"
  shows "distinct (map url acc)"
proof -
  from accumulate_picks[OF assms] obtain chosen where
    c: "acc = map image_data chosen"
       "distinct (map (\<lambda>p. optimized_url (regular p)) chosen)" by blast
  have "map url acc = map (\<lambda>p. optimized_url (regular p)) chosen"
    unfolding c(1) by (simp add: url_image_data)
  then show ?thesis using c(2) by simp
qed

lemma accumulate_length:
  "accumulate count raw idxs (acc, ids, urls) = Inr acc'
   \<Longrightarrow> int (length acc') \<le> max count (int (length acc))"
proof (induction idxs arbitrary: acc ids urls)
  case Nil
  then show ?case by simp
next
  case (Cons idx rest)
  show ?case
  proof (cases "count \<le> int (length acc)")
    case True
    then show ?thesis using Cons.prems by simp
  next
    case more: False
    from Cons.prems more obtain i where i: "as_int idx = Inr i"
      by (auto split: sum.splits)
    have same: "accumulate count raw rest (acc, ids, urls) = Inr acc'
                \<Longrightarrow> ?thesis" using Cons.IH by blast
    have grown: "accumulate count raw rest (acc @ [x], ids', urls') = Inr acc'
                \<Longrightarrow> ?thesis" for x ids' urls'
    proof -
      assume "accumulate count raw rest (acc @ [x], ids', urls') = Inr acc'"
      then have "int (length acc') \<le> max count (int (length (acc @ [x])))" by (rule Cons.IH)
      then show ?thesis using more by simp
    qed
    show ?thesis using Cons.prems more i same grown
      by (auto split: sum.splits if_splits)
  qed
qed

lemma pad_distinct: "distinct (map url acc) \<Longrightarrow> distinct (map url (pad count fbs acc))"
proof (induction fbs arbitrary: acc)
  case Nil then show ?case by simp
next
  case (Cons f fbs)
  show ?case
  proof (cases "url f \<in> set (map url acc)")
    case True
    then show ?thesis using Cons by simp
  next
    case False
    then have d: "distinct (map url (acc @ [f]))" using Cons.prems by simp
    show ?thesis using False d Cons.IH[OF d] by (simp add: Let_def)
  qed
qed

section \<open>The cache table\<close>

lemma distinct_map_insort_key:
  "distinct (map f (insort_key g x xs)) = (f x \<notin> f ` set xs \<and> distinct (map f xs))"
  by (induction xs) (auto simp: set_insort_key)

lemma distinct_map_sort_key: "distinct (map f (sort_key g xs)) = distinct (map f xs)"
  by (induction xs) (auto simp: distinct_map_insort_key)

lemma cache_lookup_distinct:
  assumes "cache_ok db"
  shows "distinct (map image_url (cache_lookup db q count))"
proof -
  have "distinct (map image_url (filter (\<lambda>r. row_query r = q) db))"
    using assms by (simp add: cache_ok_def)
  then have "distinct (map image_url (sort_key image_index (filter (\<lambda>r. row_query r = q) db)))"
    by (simp add: distinct_map_sort_key)
  then show ?thesis
    by (simp add: cache_lookup_def sql_limit_def take_map[symmetric])
qed

lemma url_row_image: "map url (map row_image rows) = map image_url rows"
  by (simp add: row_image_def comp_def)

lemma url_row_image_comp: "url \<circ> row_image = image_url"
  by (simp add: row_image_def fun_eq_iff)

lemma run_statements_inserts:
  "run_statements fault k (map Insert rs @ [Commit]) rows = (Some rows', tr)
   \<Longrightarrow> rows' = rows @ rs"
proof (induction rs arbitrary: k rows tr)
  case Nil
  then show ?case by (auto split: if_splits)
next
  case (Cons r rs)
  from Cons.prems obtain tr' where
    "run_statements fault (Suc k) (map Insert rs @ [Commit]) (rows @ [r]) = (Some rows', tr')"
    by (auto split: if_splits option.splits prod.splits)
  from Cons.IH[OF this] show ?case by simp
qed

lemma replace_cache_rows:
  "fst (replace_cache fault q imgs db) = db
   \<or> fst (replace_cache fault q imgs db) = filter (\<lambda>r. row_query r \<noteq> q) db @ new_rows q imgs"
proof (cases "run_statements fault 0 (cache_statements q imgs) db")
  case (Pair res tr)
  show ?thesis
  proof (cases res)
    case None
    then show ?thesis using Pair by (simp add: replace_cache_def)
  next
    case (Some rows')
    have st: "cache_statements q imgs
              = Begin # Delete q # (map Insert (new_rows q imgs) @ [Commit])"
      by (simp add: cache_statements_def new_rows_def comp_def case_prod_beta)
    from Pair Some obtain tr' where
      "run_statements fault 2 (map Insert (new_rows q imgs) @ [Commit])
         (filter (\<lambda>r. row_query r \<noteq> q) db) = (Some rows', tr')"
      unfolding st by (auto split: if_splits option.splits prod.splits simp: numeral_2_eq_2)
    from run_statements_inserts[OF this]
    have "rows' = filter (\<lambda>r. row_query r \<noteq> q) db @ new_rows q imgs" .
    then show ?thesis using Pair Some by (simp add: replace_cache_def)
  qed
qed

lemma new_rows_props:
  "map image_url (new_rows q imgs) = map url imgs"
  "\<forall>r \<in> set (new_rows q imgs). row_query r = q"
proof -
  have "map image_url (new_rows q imgs) = map (\<lambda>x. url (snd x)) (enumerate 0 imgs)"
    by (simp add: new_rows_def comp_def case_prod_beta)
  also have "\<dots> = map url (map snd (enumerate 0 imgs))" by (simp only: map_map comp_def)
  finally show "map image_url (new_rows q imgs) = map url imgs" by simp
  show "\<forall>r \<in> set (new_rows q imgs). row_query r = q"
    by (auto simp: new_rows_def)
qed

lemma cache_ok_replaced:
  assumes "cache_ok db" and "distinct (map url imgs)"
  shows "cache_ok (filter (\<lambda>r. row_query r \<noteq> q) db @ new_rows q imgs)"
  unfolding cache_ok_def
proof
  fix q'
  show "distinct (map image_url
          (filter (\<lambda>r. row_query r = q') (filter (\<lambda>r. row_query r \<noteq> q) db @ new_rows q imgs)))"
  proof (cases "q' = q")
    case True
    have "filter (\<lambda>r. row_query r = q) (filter (\<lambda>r. row_query r \<noteq> q) db) = []"
      by (simp add: filter_empty_conv)
    moreover have "filter (\<lambda>r. row_query r = q) (new_rows q imgs) = new_rows q imgs"
      using new_rows_props(2)[of q imgs] by (simp add: filter_id_conv)
    ultimately show ?thesis using True assms(2) by (simp add: new_rows_props(1))
  next
    case False
    have "filter (\<lambda>r. row_query r = q') (new_rows q imgs) = []"
      using new_rows_props(2)[of q imgs] False by (auto simp: filter_empty_conv)
    moreover have "filter (\<lambda>r. row_query r = q') (filter (\<lambda>r. row_query r \<noteq> q) db)
                   = filter (\<lambda>r. row_query r = q') db"
      using False by (auto intro: filter_cong)
    ultimately show ?thesis using assms(1) by (simp add: cache_ok_def)
  qed
qed

lemma cache_ok_replace_cache:
  assumes "cache_ok db" and "distinct (map url imgs)"
  shows "cache_ok (fst (replace_cache fault q imgs db))"
  using replace_cache_rows[of fault q imgs db] assms cache_ok_replaced[OF assms, of q]
  by auto

section \<open>The paths of fetch_unsplash_images\<close>

lemma search_loop_trace:
  "search_loop reply count a qs raw filt = (r, f, tr) \<Longrightarrow> \<forall>e \<in> set tr. \<exists>s. e = HttpGet s"
proof (induction qs arbitrary: a raw filt r f tr)
  case Nil
  then show ?case by simp
next
  case (Cons cq rest)
  have step: "\<And>raw' filt'.
      (case search_loop reply count (Suc a) rest raw' filt' of
         (r, f, tr) \<Rightarrow> (r, f, HttpGet cq # tr)) = (r, f, tr)
      \<Longrightarrow> \<forall>e \<in> set tr. \<exists>s. e = HttpGet s"
  proof -
    fix raw' filt'
    assume a: "(case search_loop reply count (Suc a) rest raw' filt' of
         (r, f, tr) \<Rightarrow> (r, f, HttpGet cq # tr)) = (r, f, tr)"
    obtain r' f' tr' where s: "search_loop reply count (Suc a) rest raw' filt' = (r', f', tr')"
      by (cases "search_loop reply count (Suc a) rest raw' filt'") auto
    have "tr = HttpGet cq # tr'" using a unfolding s by simp
    moreover have "\<forall>e \<in> set tr'. \<exists>s. e = HttpGet s" using Cons.IH[OF s] .
    ultimately show "\<forall>e \<in> set tr. \<exists>s. e = HttpGet s" by simp
  qed
  show ?case
  proof (cases "reply a cq")
    case TransportError
    then show ?thesis using Cons.prems step by (simp add: Let_def)
  next
    case (Reply status body)
    show ?thesis
    proof (cases "status = 200")
      case False
      then show ?thesis using Cons.prems Reply step by (simp add: Let_def)
    next
      case True
      show ?thesis
      proof (cases body)
        case Malformed
        then show ?thesis using Cons.prems Reply True step by (simp add: Let_def)
      next
        case (Results photos)
        obtain raw' filt' raised where ap: "add_photos photos raw filt = (raw', filt', raised)"
          by (cases "add_photos photos raw filt") auto
        show ?thesis
        proof (cases "\<not> raised \<and> count * 2 \<le> int (length filt')")
          case True
          then have "tr = [HttpGet cq]"
            using Cons.prems Reply \<open>status = 200\<close> Results ap by (simp add: Let_def)
          then show ?thesis by simp
        next
          case False
          then show ?thesis
            using Cons.prems Reply \<open>status = 200\<close> Results ap step[of raw' filt']
            by (auto simp: Let_def)
        qed
      qed
    qed
  qed
qed

lemma try_models_trace: "\<forall>e \<in> set (snd (try_models gen ms)). \<exists>m. e = Generate m"
proof (induction ms)
  case Nil
  then show ?case by simp
next
  case (Cons m ms)
  obtain r tr where t: "try_models gen ms = (r, tr)" by (cases "try_models gen ms")
  have tr: "\<forall>e \<in> set tr. \<exists>m. e = Generate m" using Cons.IH unfolding t by simp
  show ?case using t tr
    by (auto simp: Let_def split: gen_reply.splits sum.splits)
qed

lemma select_trace:
  "\<forall>e \<in> set (snd (select_best_destination_images w d cands)). \<exists>m. e = Generate m"
proof -
  obtain r tr where t: "try_models (generate w) models_to_try = (r, tr)"
    by (cases "try_models (generate w) models_to_try")
  have "\<forall>e \<in> set tr. \<exists>m. e = Generate m"
    using try_models_trace[of "generate w" models_to_try] unfolding t by simp
  then show ?thesis using t
    by (auto simp: select_best_destination_images_def split: option.splits sum.splits)
qed

lemma select_db_fault:
  "select_best_destination_images (w\<lparr>db_fault := x\<rparr>) d cands
   = select_best_destination_images w d cands"
  by (simp add: select_best_destination_images_def split: sum.splits)

text \<open>The ways a call can end.\<close>

lemma fetch_cases:
  obtains
    (hit) "count \<le> int (length (cache_lookup db q count))"
      "fetch_unsplash_images w db q count =
         \<lparr>returned = Inr (map row_image (py_prefix (cache_lookup db q count) count)),
          db_after = db, trace = []\<rparr>"
  | (fallback) tr where "\<not> count \<le> int (length (cache_lookup db q count))"
      "fetch_unsplash_images w db q count =
         \<lparr>returned = Inr (get_fallback_images q count), db_after = db, trace = tr\<rparr>"
      "DbRollback \<notin> set tr"
  | (raised) e tr where "\<not> count \<le> int (length (cache_lookup db q count))"
      "fetch_unsplash_images w db q count = \<lparr>returned = Inl e, db_after = db, trace = tr\<rparr>"
      "DbRollback \<notin> set tr"
  | (finished) raw idxs acc tr where "\<not> count \<le> int (length (cache_lookup db q count))"
      "accumulate count raw idxs ([], {}, {}) = Inr acc"
      "DbRollback \<notin> set tr"
      "fetch_unsplash_images w db q count =
         \<lparr>returned =
            Inr (py_prefix
                  (if int (length acc) < count
                   then pad count (get_fallback_images q (count - int (length acc))) acc
                   else acc) count),
          db_after = (if acc \<noteq> [] then fst (replace_cache (db_fault w) q acc db) else db),
          trace = tr @ (if acc \<noteq> [] then snd (replace_cache (db_fault w) q acc db) else [])\<rparr>"
proof (cases "count \<le> int (length (cache_lookup db q count))")
  case True
  then show ?thesis using hit by (simp add: fetch_unsplash_images_def Let_def)
next
  case miss: False
  show ?thesis
  proof (cases "unsplash_access_key w = []")
    case True
    then show ?thesis using fallback[of "[]"] miss
      by (simp add: fetch_unsplash_images_def Let_def)
  next
    case key: False
    obtain raw filt tr1 where s:
      "search_loop (http w) count 0 (query_variations q) [] [] = (raw, filt, tr1)"
      by (cases "search_loop (http w) count 0 (query_variations q) [] []") auto
    have t1: "DbRollback \<notin> set tr1" using search_loop_trace[OF s] by auto
    let ?raw = "if filt \<noteq> [] then filt else raw"
    show ?thesis
    proof (cases "?raw = []")
      case True
      then show ?thesis using fallback[of tr1] miss key s t1
        by (simp add: fetch_unsplash_images_def Let_def)
    next
      case some: False
      obtain res tr2 where r0:
        "select_best_destination_images w (destination_name q) ?raw = (res, tr2)"
        by (cases "select_best_destination_images w (destination_name q) ?raw") auto
      have t2: "DbRollback \<notin> set tr2"
        using select_trace[of w "destination_name q" ?raw] unfolding r0 by auto
      have t12: "DbRollback \<notin> set (tr1 @ tr2)" using t1 t2 by simp
      show ?thesis
      proof (cases res)
        case (Inl e)
        have "fetch_unsplash_images w db q count
              = \<lparr>returned = Inl e, db_after = db, trace = tr1 @ tr2\<rparr>"
          using miss key s some r0 Inl by (simp add: fetch_unsplash_images_def Let_def)
        then show ?thesis using raised[of e "tr1 @ tr2"] miss t12 by blast
      next
        case (Inr ranked)
        note r = r0[unfolded Inr]
      show ?thesis
      proof (cases "py_iter ranked")
        case (Inl e)
        have "fetch_unsplash_images w db q count
              = \<lparr>returned = Inl e, db_after = db, trace = tr1 @ tr2\<rparr>"
          using miss key s some r Inl by (simp add: fetch_unsplash_images_def Let_def)
        then show ?thesis using raised[of e "tr1 @ tr2"] miss t12 by blast
      next
        case (Inr idxs)
        show ?thesis
        proof (cases "accumulate count ?raw idxs ([], {}, {})")
          case (Inl e)
          have "fetch_unsplash_images w db q count
                = \<lparr>returned = Inl e, db_after = db, trace = tr1 @ tr2\<rparr>"
            using miss key s some r Inr Inl by (simp add: fetch_unsplash_images_def Let_def)
          then show ?thesis using raised[of e "tr1 @ tr2"] miss t12 by blast
        next
          case acc: (Inr acc)
          have "fetch_unsplash_images w db q count =
            \<lparr>returned =
               Inr (py_prefix
                     (if int (length acc) < count
                      then pad count (get_fallback_images q (count - int (length acc))) acc
                      else acc) count),
             db_after = (if acc \<noteq> [] then fst (replace_cache (db_fault w) q acc db) else db),
             trace = (tr1 @ tr2)
                     @ (if acc \<noteq> [] then snd (replace_cache (db_fault w) q acc db) else [])\<rparr>"
            using miss key s some r Inr acc
            by (cases "replace_cache (db_fault w) q acc db")
               (simp add: fetch_unsplash_images_def Let_def)
          then show ?thesis using finished[of ?raw idxs acc "tr1 @ tr2"] miss acc t12 by blast
        qed
      qed
      qed
    qed
  qed
qed

lemma fetch_distinct:
  assumes "cache_ok db" and "returned (fetch_unsplash_images w db q count) = Inr images"
  shows "distinct (map url images)"
proof (cases rule: fetch_cases[of count db q w])
  case hit
  have "distinct (map image_url (py_prefix (cache_lookup db q count) count))"
    using cache_lookup_distinct[OF assms(1)] by (rule py_prefix_distinct)
  then show ?thesis using assms(2) hit(2) by (auto simp: url_row_image_comp)
next
  case (fallback tr)
  then show ?thesis using assms(2) get_fallback_images_distinct by auto
next
  case (raised e tr)
  then show ?thesis using assms(2) by simp
next
  case (finished raw idxs acc tr)
  have d: "distinct (map url acc)" using finished(2) by (rule accumulate_distinct)
  let ?padded = "if int (length acc) < count
                 then pad count (get_fallback_images q (count - int (length acc))) acc
                 else acc"
  have "distinct (map url ?padded)" using d pad_distinct by simp
  then have "distinct (map url (py_prefix ?padded count))" by (rule py_prefix_distinct)
  then show ?thesis using assms(2) finished(4) by auto
qed

lemma fetch_cache_ok:
  assumes "cache_ok db"
  shows "cache_ok (db_after (fetch_unsplash_images w db q count))"
proof (cases rule: fetch_cases[of count db q w])
  case hit
  then show ?thesis using assms by simp
next
  case (fallback tr)
  then show ?thesis using assms by simp
next
  case (raised e tr)
  then show ?thesis using assms by simp
next
  case (finished raw idxs acc tr)
  have d: "distinct (map url acc)" using finished(2) by (rule accumulate_distinct)
  show ?thesis using finished(4) assms cache_ok_replace_cache[OF assms d] by simp
qed

lemma reachable_cache_ok: "reachable db \<Longrightarrow> cache_ok db"
proof (induction rule: reachable.induct)
  case initial
  then show ?case by (simp add: cache_ok_def)
next
  case (call db w q count)
  then show ?case by (simp add: fetch_cache_ok)
qed

text \<open>
  A result with a null tag title ends the reading of its response: it is in
  \<open>raw_photo_data\<close> only, and the results after it are in neither list.
\<close>

lemma add_photos_null_title:
  "add_photos [example_photo\<lparr>tags := [None]\<rparr>, example_photo] [] []
     = ([example_photo\<lparr>tags := [None]\<rparr>], [], True)"
  by code_simp

section \<open>The cache fast path\<close>

lemma cache_lookup_rows:
  "set (cache_lookup db q count) \<subseteq> {r \<in> set db. row_query r = q}"
  "sorted (map image_index (cache_lookup db q count))"
proof -
  let ?rows = "sort_key image_index (filter (\<lambda>r. row_query r = q) db)"
  obtain n where n: "cache_lookup db q count = take n ?rows"
    by (cases "count < 0") (auto simp: cache_lookup_def sql_limit_def intro: that[of "length ?rows"])
  have "set (take n ?rows) \<subseteq> set ?rows" by (rule set_take_subset)
  then show "set (cache_lookup db q count) \<subseteq> {r \<in> set db. row_query r = q}"
    unfolding n by auto
  have "sorted (map image_index ?rows)" by (rule sorted_sort_key)
  then have "sorted (take n (map image_index ?rows))" by (rule sorted_wrt_take)
  then show "sorted (map image_index (cache_lookup db q count))"
    unfolding n by (simp add: take_map)
qed

text \<open>
  C3. When the cache lookup for (query, c) returns at least c rows, the call returns these
  rows, each as the image with the row's URL, photographer and photographer URL, in the
  order of their rank index; it sends no search request, makes no ranking call and writes
  nothing to the cache. The rows are rows of the table for this query, and for c \<ge> 0 they
  are exactly the first c of them.
\<close>

theorem cache_hit_returns_cached:
  "count \<le> int (length (cache_lookup db q count)) \<Longrightarrow>
     fetch_unsplash_images w db q count =
       \<lparr>returned =
          Inr (map (\<lambda>r. \<lparr>url = image_url r, photographer = row_photographer r,
                          photographer_url = row_photographer_url r\<rparr>)
                 (py_prefix (cache_lookup db q count) count)),
        db_after = db, trace = []\<rparr>
     \<and> set (cache_lookup db q count) \<subseteq> {r \<in> set db. row_query r = q}
     \<and> sorted (map image_index (cache_lookup db q count))
     \<and> (0 \<le> count \<longrightarrow>
          py_prefix (cache_lookup db q count) count
            = take (nat count) (sort_key image_index (filter (\<lambda>r. row_query r = q) db))
          \<and> length (py_prefix (cache_lookup db q count) count) = nat count)"
proof -
  assume hit: "count \<le> int (length (cache_lookup db q count))"
  have conv: "row_image = (\<lambda>r. \<lparr>url = image_url r, photographer = row_photographer r,
                          photographer_url = row_photographer_url r\<rparr>)"
    by (simp add: row_image_def fun_eq_iff)
  have a: "fetch_unsplash_images w db q count =
       \<lparr>returned =
          Inr (map (\<lambda>r. \<lparr>url = image_url r, photographer = row_photographer r,
                          photographer_url = row_photographer_url r\<rparr>)
                 (py_prefix (cache_lookup db q count) count)),
        db_after = db, trace = []\<rparr>"
    using hit unfolding conv[symmetric] by (simp add: fetch_unsplash_images_def Let_def)
  have b: "0 \<le> count \<longrightarrow>
          py_prefix (cache_lookup db q count) count
            = take (nat count) (sort_key image_index (filter (\<lambda>r. row_query r = q) db))
          \<and> length (py_prefix (cache_lookup db q count) count) = nat count"
    using hit by (auto simp: py_prefix_def cache_lookup_def sql_limit_def)
  show ?thesis using a b cache_lookup_rows[of db q count] by blast
qed

theorem cache_hit_returns_cached_witness:
  "(2::int) \<le> int (length (cache_lookup [example_row2, example_row3, example_row]
                                 (str ''trip'') 2))
   \<and> (0::int) \<le> 2
   \<and> fetch_unsplash_images example_world [example_row2, example_row3, example_row]
         (str ''trip'') 2 =
       \<lparr>returned =
          Inr [\<lparr>url = ''https://example.org/old.jpg'', photographer = ''Bob'',
                 photographer_url = ''https://unsplash.com/@bob''\<rparr>,
               \<lparr>url = ''https://example.org/new.jpg'', photographer = ''Cy'',
                 photographer_url = ''https://unsplash.com/@cy''\<rparr>],
        db_after = [example_row2, example_row3, example_row], trace = []\<rparr>"
proof -
  let ?db = "[example_row2, example_row3, example_row]"
  have l: "cache_lookup ?db (str ''trip'') 2 = [example_row, example_row2]" by code_simp
  have h: "(2::int) \<le> int (length (cache_lookup ?db (str ''trip'') 2))"
    unfolding l by simp
  have r: "map (\<lambda>r. \<lparr>url = image_url r, photographer = row_photographer r,
                      photographer_url = row_photographer_url r\<rparr>)
             (py_prefix [example_row, example_row2] 2) =
             [\<lparr>url = ''https://example.org/old.jpg'', photographer = ''Bob'',
                photographer_url = ''https://unsplash.com/@bob''\<rparr>,
              \<lparr>url = ''https://example.org/new.jpg'', photographer = ''Cy'',
                photographer_url = ''https://unsplash.com/@cy''\<rparr>]"
    by (simp add: py_prefix_def example_row_def example_row2_def)
  show ?thesis
    using cache_hit_returns_cached [OF h, of example_world] h unfolding l r by simp
qed

section \<open>Failing search requests\<close>




text \<open>
  The word taken by \<^verbatim>\<open>sanitized_query.split()[0]\<close> exists whenever the sanitized query is
  not empty.
\<close>

lemma split_acc_nonempty: "a \<noteq> [] \<Longrightarrow> split_acc a s \<noteq> []"
  by (induction s arbitrary: a) auto

lemma split_acc_words:
  "(a \<noteq> [] \<longrightarrow> \<not> is_space (hd a)) \<Longrightarrow>
     \<forall>w \<in> set (split_acc a s). w \<noteq> [] \<and> \<not> is_space (hd w)"
proof (induction s arbitrary: a)
  case Nil
  then show ?case by simp
next
  case (Cons c cs)
  show ?case
  proof (cases "is_space c")
    case True
    have "\<forall>w \<in> set (split_acc [] cs). w \<noteq> [] \<and> \<not> is_space (hd w)"
      by (rule Cons.IH) simp
    then show ?thesis using True Cons.prems by auto
  next
    case False
    have "a @ [c] \<noteq> [] \<longrightarrow> \<not> is_space (hd (a @ [c]))"
      using False Cons.prems by (cases a) auto
    then have "\<forall>w \<in> set (split_acc (a @ [c]) cs). w \<noteq> [] \<and> \<not> is_space (hd w)"
      by (rule Cons.IH)
    then show ?thesis using False by simp
  qed
qed

lemma join_nonempty_hd:
  "join sep ws \<noteq> [] \<Longrightarrow> \<forall>w \<in> set ws. w \<noteq> [] \<Longrightarrow> hd (join sep ws) = hd (hd ws)"
  by (induction sep ws rule: join.induct) auto

lemma sanitized_query_first_word:
  assumes "sanitized_query q \<noteq> []"
  shows "split (sanitized_query q) \<noteq> []"
proof -
  define ws where
    "ws = filter (\<lambda>word. word \<notin> set people_keywords \<and> \<not> startswith word (str ''-''))
            (split (lower q))"
  have "\<forall>w \<in> set (split (lower q)). w \<noteq> [] \<and> \<not> is_space (hd w)"
    unfolding split_def by (rule split_acc_words) simp
  then have words: "\<forall>w \<in> set ws. w \<noteq> [] \<and> \<not> is_space (hd w)"
    unfolding ws_def by simp
  have s: "sanitized_query q = join (str '' '') ws" by (simp add: sanitized_query_def ws_def)
  have jne: "join (str '' '') ws \<noteq> []" using assms unfolding s .
  have ne: "ws \<noteq> []" using jne by (cases ws) auto
  have "hd (join (str '' '') ws) = hd (hd ws)" using jne words
    by (intro join_nonempty_hd) auto
  moreover have "hd ws \<in> set ws" using ne by (rule hd_in_set)
  ultimately have nsp: "\<not> is_space (hd (join (str '' '') ws))" using words by metis
  obtain c cs where cs: "join (str '' '') ws = c # cs" using jne by (cases "join (str '' '') ws") auto
  have "\<not> is_space c" using nsp unfolding cs by simp
  then have "split (c # cs) = split_acc [c] cs" by (simp add: split_def)
  then show ?thesis unfolding s cs using split_acc_nonempty[of "[c]" cs] by simp
qed



section \<open>A failing cache update\<close>

lemma run_statements_fault:
  "k0 \<le> k \<Longrightarrow> k < k0 + length ss \<Longrightarrow> fst (run_statements (Some k) k0 ss rows) = None"
proof (induction ss arbitrary: k0 rows)
  case Nil
  then show ?case by simp
next
  case (Cons s ss)
  show ?case
  proof (cases "k = k0")
    case True
    then show ?thesis by simp
  next
    case False
    then have le: "Suc k0 \<le> k" and lt: "k < Suc k0 + length ss" using Cons.prems by auto
    show ?thesis
    proof (cases "execute s rows")
      case None
      then show ?thesis using False by simp
    next
      case (Some rows')
      have "fst (run_statements (Some k) (Suc k0) ss rows') = None" using le lt by (rule Cons.IH)
      then show ?thesis using False Some
        by (cases "run_statements (Some k) (Suc k0) ss rows'") auto
    qed
  qed
qed

lemma run_statements_events:
  "\<forall>e \<in> set (snd (run_statements fault k ss rows)). \<exists>s. e = DbExecute s"
proof (induction ss arbitrary: k rows)
  case Nil
  then show ?case by simp
next
  case (Cons s ss)
  show ?case
  proof (cases "fault = Some k")
    case True
    then show ?thesis by simp
  next
    case False
    show ?thesis
    proof (cases "execute s rows")
      case None
      then show ?thesis using False by simp
    next
      case (Some rows')
      obtain r tr where t: "run_statements fault (Suc k) ss rows' = (r, tr)"
        by (cases "run_statements fault (Suc k) ss rows'")
      have "\<forall>e \<in> set tr. \<exists>s. e = DbExecute s" using Cons.IH[of "Suc k" rows'] unfolding t by simp
      then show ?thesis using False Some t by simp
    qed
  qed
qed

lemma length_cache_statements: "length (cache_statements q imgs) = length imgs + 3"
  by (simp add: cache_statements_def)

lemma replace_cache_fault:
  assumes "k < length imgs + 3"
  shows "fst (replace_cache (Some k) q imgs db) = db"
    and "last (snd (replace_cache (Some k) q imgs db)) = DbRollback"
proof -
  obtain r tr where t: "run_statements (Some k) 0 (cache_statements q imgs) db = (r, tr)"
    by (cases "run_statements (Some k) 0 (cache_statements q imgs) db")
  have "fst (run_statements (Some k) 0 (cache_statements q imgs) db) = None"
    using assms by (intro run_statements_fault) (simp_all add: length_cache_statements)
  then have r: "r = None" unfolding t by simp
  show "fst (replace_cache (Some k) q imgs db) = db"
    using t r by (simp add: replace_cache_def)
  show "last (snd (replace_cache (Some k) q imgs db)) = DbRollback"
    using t r by (simp add: replace_cache_def)
qed

lemma replace_cache_rollback:
  assumes "DbRollback \<in> set (snd (replace_cache fault q imgs db))"
  shows "fst (replace_cache fault q imgs db) = db"
proof -
  obtain r tr where t: "run_statements fault 0 (cache_statements q imgs) db = (r, tr)"
    by (cases "run_statements fault 0 (cache_statements q imgs) db")
  have ev: "\<forall>e \<in> set tr. \<exists>s. e = DbExecute s"
    using run_statements_events[of fault 0 "cache_statements q imgs" db] unfolding t by simp
  show ?thesis
  proof (cases r)
    case None
    then show ?thesis using t by (simp add: replace_cache_def)
  next
    case (Some rows')
    then have "snd (replace_cache fault q imgs db) = tr" using t by (simp add: replace_cache_def)
    then have "DbRollback \<in> set tr" using assms by simp
    then show ?thesis using ev by auto
  qed
qed

lemma fetch_returned_fault:
  "returned (fetch_unsplash_images (w\<lparr>db_fault := x\<rparr>) db q count)
   = returned (fetch_unsplash_images w db q count)"
  by (simp add: fetch_unsplash_images_def select_db_fault Let_def
           split: prod.splits sum.splits)

lemma fetch_rollback:
  assumes "DbRollback \<in> set (trace (fetch_unsplash_images w db q count))"
  shows "db_after (fetch_unsplash_images w db q count) = db"
    and "\<exists>images. returned (fetch_unsplash_images w db q count) = Inr images"
proof -
  have "db_after (fetch_unsplash_images w db q count) = db
        \<and> (\<exists>images. returned (fetch_unsplash_images w db q count) = Inr images)"
  proof (cases rule: fetch_cases[of count db q w])
    case hit
    then show ?thesis using assms by simp
  next
    case (fallback tr)
    then show ?thesis using assms by simp
  next
    case (raised e tr)
    then show ?thesis using assms by simp
  next
    case (finished raw idxs acc tr)
    have "acc \<noteq> [] \<and> DbRollback \<in> set (snd (replace_cache (db_fault w) q acc db))"
      using assms finished(3) unfolding finished(4) by (auto split: if_splits)
    then have "fst (replace_cache (db_fault w) q acc db) = db"
      using replace_cache_rollback by blast
    then show ?thesis unfolding finished(4) by simp
  qed
  then show "db_after (fetch_unsplash_images w db q count) = db"
    and "\<exists>images. returned (fetch_unsplash_images w db q count) = Inr images" by blast+
qed

text \<open>
  C2. The cache update of a query runs BEGIN, DELETE, one INSERT per image and COMMIT.
  When any of these statements raises, the rollback leaves the table exactly as it was
  before the call, so every lookup returns the previous rows; the failure does not reach
  the caller, who gets a list of images; and the list returned is the one the call
  returns when the database works.
\<close>

theorem cache_write_failure_keeps_cache:
  "(k < length imgs + 3 \<longrightarrow>
      fst (replace_cache (Some k) q imgs db) = db
      \<and> last (snd (replace_cache (Some k) q imgs db)) = DbRollback)
   \<and> returned (fetch_unsplash_images w db q count)
       = returned (fetch_unsplash_images (w\<lparr>db_fault := None\<rparr>) db q count)
   \<and> (DbRollback \<in> set (trace (fetch_unsplash_images w db q count)) \<longrightarrow>
        db_after (fetch_unsplash_images w db q count) = db
        \<and> cache_lookup (db_after (fetch_unsplash_images w db q count)) q' n = cache_lookup db q' n
        \<and> (\<exists>images. returned (fetch_unsplash_images w db q count) = Inr images))"
proof -
  have a: "k < length imgs + 3 \<longrightarrow>
      fst (replace_cache (Some k) q imgs db) = db
      \<and> last (snd (replace_cache (Some k) q imgs db)) = DbRollback"
    using replace_cache_fault by blast
  have b: "returned (fetch_unsplash_images w db q count)
       = returned (fetch_unsplash_images (w\<lparr>db_fault := None\<rparr>) db q count)"
    using fetch_returned_fault[where w = w and x = None] by simp
  have c: "DbRollback \<in> set (trace (fetch_unsplash_images w db q count)) \<longrightarrow>
        db_after (fetch_unsplash_images w db q count) = db
        \<and> cache_lookup (db_after (fetch_unsplash_images w db q count)) q' n = cache_lookup db q' n
        \<and> (\<exists>images. returned (fetch_unsplash_images w db q count) = Inr images)"
    using fetch_rollback[of w db q count] by auto
  show ?thesis using a b c by blast
qed

theorem cache_write_failure_keeps_cache_witness:
  "(2::nat) < length [image_data example_photo] + 3
   \<and> DbRollback \<in> set (trace (fetch_unsplash_images (example_world\<lparr>db_fault := Some 2\<rparr>)
                                [example_row] (str ''trip'') 2))
   \<and> db_after (fetch_unsplash_images (example_world\<lparr>db_fault := Some 2\<rparr>)
                 [example_row] (str ''trip'') 2) = [example_row]
   \<and> cache_lookup (db_after (fetch_unsplash_images (example_world\<lparr>db_fault := Some 2\<rparr>)
                                [example_row] (str ''trip'') 2)) (str ''trip'') 1 = [example_row]
   \<and> returned (fetch_unsplash_images (example_world\<lparr>db_fault := Some 2\<rparr>)
                 [example_row] (str ''trip'') 2)
       = returned (fetch_unsplash_images example_world [example_row] (str ''trip'') 2)"
proof -
  let ?w = "example_world\<lparr>db_fault := Some 2\<rparr>"
  have t: "trace (fetch_unsplash_images ?w [example_row] (str ''trip'') 2)
           = [HttpGet (str ''trip''), HttpGet (str ''trip''), HttpGet (str ''trip city''),
              HttpGet (str ''trip architecture''), HttpGet (str ''trip travel destination''),
              DbExecute Begin, DbExecute (Delete (str ''trip'')),
              DbExecute (Insert \<lparr>row_query = str ''trip'', image_index = 0,
                image_url = ''https://images.unsplash.com/photo-1469854523086-cc02fe5d8800?auto=format&q=80&w=1200'',
                row_photographer = ''Ann'',
                row_photographer_url = ''https://unsplash.com/@ann''\<rparr>),
              DbRollback]"
    by code_simp
  have r: "DbRollback \<in> set (trace (fetch_unsplash_images ?w [example_row] (str ''trip'') 2))"
    unfolding t by simp
  have l: "cache_lookup [example_row] (str ''trip'') 1 = [example_row]" by code_simp
  have n: "?w\<lparr>db_fault := None\<rparr> = example_world" by (simp add: example_world_def)
  show ?thesis
    using cache_write_failure_keeps_cache
            [where k = 2 and imgs = "[image_data example_photo]" and q = "str ''trip''"
               and db = "[example_row]" and w = ?w and count = 2 and q' = "str ''trip''"
               and n = 1]
          r l n
    by simp
qed

section \<open>No URL twice in one response\<close>

text \<open>
  C4. In every list a call returns on a cache table the code can have left behind, no two
  images share a URL, whether the list comes from the cache, from the ranked candidates,
  from the fallbacks or from a mix. get_fallback_images never returns a URL twice. The
  accumulated images are the images of candidates that differ in their ids and in their
  normalised URLs, and the padding keeps the URLs different.
\<close>

theorem resolved_urls_distinct:
  "(reachable db \<longrightarrow> returned (fetch_unsplash_images w db q count) = Inr images
      \<longrightarrow> distinct (map url images))
   \<and> distinct (map url (get_fallback_images q count))
   \<and> (accumulate count raw idxs ([], {}, {}) = Inr acc \<longrightarrow>
        (\<exists>chosen. acc = map image_data chosen \<and> set chosen \<subseteq> set raw
           \<and> distinct (map id_of chosen)
           \<and> distinct (map (\<lambda>p. optimized_url (regular p)) chosen)))
   \<and> (distinct (map url acc) \<longrightarrow> distinct (map url (pad count fbs acc)))"
proof -
  have a: "reachable db \<longrightarrow> returned (fetch_unsplash_images w db q count) = Inr images
      \<longrightarrow> distinct (map url images)"
    using reachable_cache_ok fetch_distinct by blast
  have b: "distinct (map url (get_fallback_images q count))"
    by (rule get_fallback_images_distinct)
  have c: "accumulate count raw idxs ([], {}, {}) = Inr acc \<longrightarrow>
        (\<exists>chosen. acc = map image_data chosen \<and> set chosen \<subseteq> set raw
           \<and> distinct (map id_of chosen)
           \<and> distinct (map (\<lambda>p. optimized_url (regular p)) chosen))"
    using accumulate_picks by blast
  have d: "distinct (map url acc) \<longrightarrow> distinct (map url (pad count fbs acc))"
    using pad_distinct by blast
  show ?thesis using a b c d by blast
qed

theorem resolved_urls_distinct_witness:
  "reachable (db_after (fetch_unsplash_images example_world [] (str ''trip'') 2))
   \<and> returned (fetch_unsplash_images example_world
                 (db_after (fetch_unsplash_images example_world [] (str ''trip'') 2)) (str ''trip'') 3)
       = Inr [image_data example_photo,
              fallback_image
                ''https://images.unsplash.com/photo-1476514525535-07fb3b4ae5f1?auto=format&q=80&w=1200'']
   \<and> distinct (map url [image_data example_photo,
              fallback_image
                ''https://images.unsplash.com/photo-1476514525535-07fb3b4ae5f1?auto=format&q=80&w=1200''])
   \<and> accumulate 3 [example_photo, example_photo] [JInt 0, JInt 1] ([], {}, {})
       = Inr [image_data example_photo]
   \<and> distinct (map url (pad 3 [fallback_image ''a'', fallback_image ''b'']
                              [image_data example_photo]))"
proof -
  let ?db = "db_after (fetch_unsplash_images example_world [] (str ''trip'') 2)"
  let ?imgs = "[image_data example_photo,
              fallback_image
                ''https://images.unsplash.com/photo-1476514525535-07fb3b4ae5f1?auto=format&q=80&w=1200'']"
  have r: "reachable ?db" by (rule reachable.call) (rule reachable.initial)
  have f: "returned (fetch_unsplash_images example_world ?db (str ''trip'') 3) = Inr ?imgs"
    by code_simp
  have a: "accumulate 3 [example_photo, example_photo] [JInt 0, JInt 1] ([], {}, {})
           = Inr [image_data example_photo]"
    by code_simp
  have d: "distinct (map url [image_data example_photo])" by simp
  show ?thesis
    using resolved_urls_distinct
            [where db = ?db and w = example_world and q = "str ''trip''" and count = 3
               and images = ?imgs and raw = "[example_photo, example_photo]"
               and idxs = "[JInt 0, JInt 1]" and acc = "[image_data example_photo]"
               and fbs = "[fallback_image ''a'', fallback_image ''b'']"]
          r f a d
    by blast
qed

section \<open>Padding after a search\<close>

text \<open>
  C1 at a concrete input. The search returns one candidate whose normalised URL is the
  first URL of the scenic pool, and two images are asked for. The one fallback that is
  requested is this URL again and is skipped, so the call returns one image although the
  scenic pool has a second, unused URL.
\<close>

theorem padding_falls_short:
  "returned (fetch_unsplash_images example_world [] (str ''trip'') 2)
     = Inr [\<lparr>url = ''https://images.unsplash.com/photo-1469854523086-cc02fe5d8800?auto=format&q=80&w=1200'',
             photographer = ''Ann'', photographer_url = ''https://unsplash.com/@ann''\<rparr>]
   \<and> map url (get_fallback_images (str ''trip'') 1)
       = [''https://images.unsplash.com/photo-1469854523086-cc02fe5d8800?auto=format&q=80&w=1200'']
   \<and> map url (get_fallback_images (str ''trip'') 2)
       = [''https://images.unsplash.com/photo-1469854523086-cc02fe5d8800?auto=format&q=80&w=1200'',
          ''https://images.unsplash.com/photo-1476514525535-07fb3b4ae5f1?auto=format&q=80&w=1200'']"
  by code_simp

section \<open>The ranking and the indices it hands over\<close>

lemma select_identity:
  "\<not> ai_available w \<or> \<not> client w \<or> cands = [] \<Longrightarrow>
     select_best_destination_images w d cands = (Inr (identity_ranking cands), [])"
  by (auto simp: select_best_destination_images_def)

lemma try_models_none:
  "\<forall>m \<in> set ms. gen m = CallRaises \<or> gen m = NoText \<or> gen m = Unparsable
   \<Longrightarrow> fst (try_models gen ms) = None"
proof (induction ms)
  case Nil
  then show ?case by simp
next
  case (Cons m ms)
  then have "fst (try_models gen ms) = None" by simp
  moreover have "gen m = CallRaises \<or> gen m = NoText \<or> gen m = Unparsable"
    using Cons.prems by simp
  ultimately show ?case
    by (cases "try_models gen ms") (auto simp: Let_def)
qed

lemma select_all_fail:
  assumes "\<forall>m. generate w m = CallRaises \<or> generate w m = NoText \<or> generate w m = Unparsable"
    and "image_descriptions cands = Inr ()"
  shows "fst (select_best_destination_images w d cands) = Inr (identity_ranking cands)"
proof -
  have "fst (try_models (generate w) models_to_try) = None"
    using assms(1) by (intro try_models_none) blast
  then show ?thesis using assms(2)
    by (cases "try_models (generate w) models_to_try")
       (auto simp: select_best_destination_images_def)
qed

text \<open>
  What the ranking hands over otherwise is the value under ranked_indices of the first
  reply that has a true value with a length there; it is not checked to be a list.
\<close>

lemma try_models_some:
  "fst (try_models gen ms) = Some ranked \<Longrightarrow> truthy ranked \<and> (\<exists>n. py_len ranked = Inr n)"
proof (induction ms)
  case Nil
  then show ?case by simp
next
  case (Cons m ms)
  obtain r tr where t: "try_models gen ms = (r, tr)" by (cases "try_models gen ms")
  show ?case using Cons t
    by (auto simp: Let_def split: gen_reply.splits sum.splits if_splits)
qed

text \<open>
  C8 at a concrete input. The first model variant answers with the JSON object
  \<^verbatim>\<open>{"ranked_indices": "abc"}\<close>. The function returns the string, which is neither a list
  nor the identity ordering, and fetch_unsplash_images then raises TypeError when it
  compares the first character with the number of candidates. With a candidate that has
  a tag whose title is null, the function itself raises TypeError, before any model is
  asked.
\<close>

theorem ranking_returns_non_list:
  "select_best_destination_images
     (example_world\<lparr>ai_available := True, client := True,
        generate := \<lambda>model_name. Parsed (JObj [(''ranked_indices'', JStr ''abc'')])\<rparr>)
     (str ''trip'') [example_photo]
     = (Inr (JStr ''abc''), [Generate ''gemini-2.5-flash''])
   \<and> identity_ranking [example_photo] = JArr [JInt 0]
   \<and> returned (fetch_unsplash_images
        (example_world\<lparr>ai_available := True, client := True,
           generate := \<lambda>model_name. Parsed (JObj [(''ranked_indices'', JStr ''abc'')])\<rparr>)
        [] (str ''trip'') 2) = Inl TypeError
   \<and> select_best_destination_images
        (example_world\<lparr>ai_available := True, client := True\<rparr>)
        (str ''trip'') [example_photo\<lparr>tags := [None]\<rparr>]
       = (Inl TypeError, [])"
  by code_simp

theorem ranking_returns_non_list_witness:
  "ai_available (example_world\<lparr>ai_available := True, client := True,
        generate := \<lambda>model_name. Parsed (JObj [(''ranked_indices'', JStr ''abc'')])\<rparr>)
   \<and> client (example_world\<lparr>ai_available := True, client := True,
        generate := \<lambda>model_name. Parsed (JObj [(''ranked_indices'', JStr ''abc'')])\<rparr>)
   \<and> [example_photo] \<noteq> []
   \<and> fst (select_best_destination_images
          (example_world\<lparr>ai_available := True, client := True,
             generate := \<lambda>model_name. Parsed (JObj [(''ranked_indices'', JStr ''abc'')])\<rparr>)
          (str ''trip'') [example_photo])
       \<noteq> Inr (identity_ranking [example_photo])"
  using ranking_returns_non_list by simp

text \<open>
  The accumulation loop ends without an exception on every list of integers (or booleans)
  that are at least minus the number of candidates, and never holds more than
  \<open>count\<close> images, for a \<open>count\<close> that is not negative.
\<close>

lemma accumulate_total:
  "\<forall>j \<in> set idxs. \<exists>i. as_int j = Inr i \<and> - int (length raw) \<le> i
   \<Longrightarrow> \<exists>acc'. accumulate count raw idxs (acc, ids, urls) = Inr acc'"
proof (induction idxs arbitrary: acc ids urls)
  case Nil
  then show ?case by simp
next
  case (Cons idx rest)
  from Cons.prems obtain i where i: "as_int idx = Inr i" "- int (length raw) \<le> i" by auto
  have rest: "\<And>acc ids urls. \<exists>acc'. accumulate count raw rest (acc, ids, urls) = Inr acc'"
    using Cons.IH Cons.prems by simp
  have idx: "i < int (length raw) \<Longrightarrow> \<exists>p. py_index raw i = Inr p"
    using i(2) by (auto simp: py_index_def Let_def)
  show ?case
  proof (cases "i < int (length raw)")
    case True
    then obtain p where "py_index raw i = Inr p" using idx by blast
    then show ?thesis using i(1) True rest by simp
  next
    case False
    then show ?thesis using i(1) rest by simp
  qed
qed

text \<open>
  C9 at a concrete input. With one candidate and the ranking [-2], the index passes the
  test \<^verbatim>\<open>idx < len(raw_photo_data)\<close>, and \<^verbatim>\<open>raw_photo_data[-2]\<close> raises IndexError, which
  leaves the loop and fetch_unsplash_images uncaught.
\<close>

theorem accumulate_negative_index_raises:
  "accumulate 1 [example_photo] [JInt (- 2)] ([], {}, {}) = Inl IndexError
   \<and> returned (fetch_unsplash_images
        (example_world\<lparr>ai_available := True, client := True,
           generate := \<lambda>model_name. Parsed (JObj [(''ranked_indices'', JArr [JInt (- 2)])])\<rparr>)
        [] (str ''trip'') 1) = Inl IndexError"
  by code_simp

theorem accumulate_negative_index_raises_witness:
  "as_int (JInt (- 2)) = Inr (- 2) \<and> (- 2 :: int) < int (length [example_photo])
   \<and> py_index [example_photo] (- 2) = Inl IndexError
   \<and> accumulate 1 [example_photo] [JInt (- 2)] ([], {}, {}) \<noteq> Inr []"
proof -
  have "py_index [example_photo] (- 2) = Inl IndexError" by code_simp
  then show ?thesis using accumulate_negative_index_raises by simp
qed

end
